theory Spec2Isabelle
  imports Main
begin

section \<open>A vector over manually managed raw storage (vector.h)\<close>

text \<open>
  The development embeds the two classes of \<^verbatim>\<open>vector.h\<close>, \<^verbatim>\<open>RawMemory<T>\<close> and
  \<^verbatim>\<open>Vector<T>\<close>, together with the algorithms of the standard library that the
  class calls on raw storage.

  \<^item> A buffer is a list of slots. A slot is \<open>None\<close> while it is raw storage and
    \<open>Some x\<close> while it holds a live object of value \<open>x\<close>.
  \<^item> A pointer into a buffer is its offset from the start of the buffer.
  \<^item> \<^verbatim>\<open>size_t\<close> is 64 bits wide. Sizes and capacities are natural numbers; the
    product \<^verbatim>\<open>n * sizeof(T)\<close> that \<^verbatim>\<open>Allocate\<close> passes to \<^verbatim>\<open>operator new\<close> is written out
    with its wrap-around, since \<open>n\<close> is chosen by the caller of \<^verbatim>\<open>Reserve\<close>, \<^verbatim>\<open>Resize\<close> and
    the sized constructor. \<^verbatim>\<open>int\<close> is 32 bits wide, and a vector of bytes can hold more
    than \<open>2 ^ 31\<close> objects, so the conversion of a position to \<^verbatim>\<open>int\<close> in \<^verbatim>\<open>Emplace\<close> and
    \<^verbatim>\<open>Erase\<close> is written out with its wrap-around.
  \<^item> An operation returns normally, leaves by an exception, or has undefined behaviour
    (a pointer formed outside its buffer, a read of raw storage, a destructor call on
    raw storage). The first two carry the state they leave behind.
  \<^item> \<^verbatim>\<open>operator new\<close> is taken to return a block of the number of bytes it is asked
    for: the only exceptions are the ones raised by the element type.
\<close>

subsection \<open>The element type\<close>

text \<open>
  The class is a template over the element type \<^verbatim>\<open>T\<close>. What the class asks of
  \<^verbatim>\<open>T\<close> at compile time are \<^verbatim>\<open>sizeof(T)\<close>, which is at least 1, and the two traits tested
  in \<^verbatim>\<open>CopyOrMoveElements\<close>; what a move leaves behind in its source and what value
  initialisation produces are parameters as well.
\<close>

record 'a elem_type =
  size_of :: nat
  nothrow_move_constructible :: bool
  copy_constructible :: bool
  moved_from :: "'a \<Rightarrow> 'a"
  value_initialized :: 'a

text \<open>
  The operations of \<^verbatim>\<open>T\<close> are observed through a probe: every constructor call,
  assignment and destructor call is appended to a trace, and a countdown says how many
  further operations that may throw succeed before one throws (\<open>None\<close>: none ever
  throws). A move construction of a type with a non-throwing move constructor never
  throws; a destructor never throws.
\<close>

datatype 'a event =
    ValueCtor 'a
  | ArgsCtor 'a
  | CopyCtor 'a
  | MoveCtor 'a
  | CopyAssign 'a
  | MoveAssign 'a
  | Dtor 'a

record 'a probe =
  countdown :: "nat option"
  trace :: "'a event list"

definition no_throw :: "'a event \<Rightarrow> 'a probe \<Rightarrow> 'a probe" where
  "no_throw e pr = pr\<lparr>trace := trace pr @ [e]\<rparr>"

text \<open>\<open>Inl\<close> is the exception, with the probe after it; \<open>Inr\<close> the normal return.\<close>

definition may_throw :: "'a event \<Rightarrow> 'a probe \<Rightarrow> 'a probe + 'a probe" where
  "may_throw e pr =
     (case countdown pr of
        None \<Rightarrow> Inr (no_throw e pr)
      | Some 0 \<Rightarrow> Inl (pr\<lparr>countdown := None\<rparr>)
      | Some (Suc k) \<Rightarrow> Inr (no_throw e (pr\<lparr>countdown := Some k\<rparr>)))"

definition move_construct :: "'a elem_type \<Rightarrow> 'a \<Rightarrow> 'a probe \<Rightarrow> 'a probe + 'a probe" where
  "move_construct T x pr =
     (if nothrow_move_constructible T then Inr (no_throw (MoveCtor x) pr)
      else may_throw (MoveCtor x) pr)"

text \<open>
  The constructor arguments of \<^verbatim>\<open>Emplace\<close>: arbitrary arguments that build the value
  \<open>x\<close>, a \<^verbatim>\<open>const T&\<close> (\<^verbatim>\<open>Insert\<close> by copy) or a \<^verbatim>\<open>T&&\<close> (\<^verbatim>\<open>Insert\<close> by move).
\<close>

datatype 'a init = Args 'a | CopyOf 'a | MoveOf 'a

fun init_value :: "'a init \<Rightarrow> 'a" where
  "init_value (Args x) = x"
| "init_value (CopyOf x) = x"
| "init_value (MoveOf x) = x"

fun construct :: "'a elem_type \<Rightarrow> 'a init \<Rightarrow> 'a probe \<Rightarrow> 'a probe + 'a probe" where
  "construct T (Args x) pr = may_throw (ArgsCtor x) pr"
| "construct T (CopyOf x) pr = may_throw (CopyCtor x) pr"
| "construct T (MoveOf x) pr = move_construct T x pr"

subsection \<open>Outcomes\<close>

datatype ('s, 'r) outcome = Returns 's 'r | Throws 's | Undefined

subsection \<open>The standard algorithms on raw storage\<close>

type_synonym 'a mem = "'a option list"

text \<open>
  \<^verbatim>\<open>std::destroy_n(buf + s, n)\<close>: runs the destructor of \<open>n\<close> objects, from the first to
  the last, which turns their slots into raw storage. \<open>None\<close> is undefined behaviour: a
  slot outside the buffer or one that holds no object.
\<close>

fun destroy_n :: "'a mem \<Rightarrow> nat \<Rightarrow> nat \<Rightarrow> 'a probe \<Rightarrow> ('a mem \<times> 'a probe) option" where
  "destroy_n buf s 0 pr = Some (buf, pr)"
| "destroy_n buf s (Suc n) pr =
     (if s < length buf then
        (case buf ! s of
           None \<Rightarrow> None
         | Some x \<Rightarrow> destroy_n (buf[s := None]) (Suc s) n (no_throw (Dtor x) pr))
      else None)"

text \<open>\<^verbatim>\<open>std::destroy_at(buf + s)\<close>.\<close>

definition destroy_at :: "'a mem \<Rightarrow> nat \<Rightarrow> 'a probe \<Rightarrow> ('a mem \<times> 'a probe) option" where
  "destroy_at buf s pr = destroy_n buf s 1 pr"

text \<open>
  \<^verbatim>\<open>std::uninitialized_copy_n(src + s, n, dst + d)\<close>: copy-constructs \<open>n\<close> objects into
  raw storage. The loop of the library keeps the start \<open>result\<close> of the destination range
  and the slot \<open>cur\<close> it has reached; when a constructor throws, it destroys the objects
  built so far, the range from \<open>result\<close> to \<open>cur\<close>, and the exception goes on. The state is
  the source buffer, the destination buffer and the probe.
\<close>

fun uninitialized_copy_from ::
  "'a mem \<Rightarrow> nat \<Rightarrow> nat \<Rightarrow> 'a mem \<Rightarrow> nat \<Rightarrow> nat \<Rightarrow> 'a probe
     \<Rightarrow> ('a mem \<times> 'a mem \<times> 'a probe, unit) outcome"
where
  "uninitialized_copy_from src s 0 dst result cur pr = Returns (src, dst, pr) ()"
| "uninitialized_copy_from src s (Suc n) dst result cur pr =
     (if s < length src \<and> cur < length dst then
        (case src ! s of
           None \<Rightarrow> Undefined
         | Some x \<Rightarrow>
             (case may_throw (CopyCtor x) pr of
                Inl pr1 \<Rightarrow>
                  (case destroy_n dst result (cur - result) pr1 of
                     None \<Rightarrow> Undefined
                   | Some (dst', pr2) \<Rightarrow> Throws (src, dst', pr2))
              | Inr pr1 \<Rightarrow>
                  uninitialized_copy_from src (Suc s) n (dst[cur := Some x]) result (Suc cur) pr1))
      else Undefined)"

definition uninitialized_copy_n ::
  "'a mem \<Rightarrow> nat \<Rightarrow> nat \<Rightarrow> 'a mem \<Rightarrow> nat \<Rightarrow> 'a probe \<Rightarrow> ('a mem \<times> 'a mem \<times> 'a probe, unit) outcome"
where
  "uninitialized_copy_n src s n dst d pr = uninitialized_copy_from src s n dst d d pr"

text \<open>
  \<^verbatim>\<open>std::uninitialized_move_n(src + s, n, dst + d)\<close>: the same with move construction;
  every source object that was moved stays behind in its moved-from state.
\<close>

fun uninitialized_move_from ::
  "'a elem_type \<Rightarrow> 'a mem \<Rightarrow> nat \<Rightarrow> nat \<Rightarrow> 'a mem \<Rightarrow> nat \<Rightarrow> nat \<Rightarrow> 'a probe
     \<Rightarrow> ('a mem \<times> 'a mem \<times> 'a probe, unit) outcome"
where
  "uninitialized_move_from T src s 0 dst result cur pr = Returns (src, dst, pr) ()"
| "uninitialized_move_from T src s (Suc n) dst result cur pr =
     (if s < length src \<and> cur < length dst then
        (case src ! s of
           None \<Rightarrow> Undefined
         | Some x \<Rightarrow>
             (case move_construct T x pr of
                Inl pr1 \<Rightarrow>
                  (case destroy_n dst result (cur - result) pr1 of
                     None \<Rightarrow> Undefined
                   | Some (dst', pr2) \<Rightarrow> Throws (src, dst', pr2))
              | Inr pr1 \<Rightarrow>
                  uninitialized_move_from T (src[s := Some (moved_from T x)]) (Suc s) n
                    (dst[cur := Some x]) result (Suc cur) pr1))
      else Undefined)"

definition uninitialized_move_n ::
  "'a elem_type \<Rightarrow> 'a mem \<Rightarrow> nat \<Rightarrow> nat \<Rightarrow> 'a mem \<Rightarrow> nat \<Rightarrow> 'a probe
     \<Rightarrow> ('a mem \<times> 'a mem \<times> 'a probe, unit) outcome"
where
  "uninitialized_move_n T src s n dst d pr = uninitialized_move_from T src s n dst d d pr"

text \<open>
  \<^verbatim>\<open>std::uninitialized_value_construct_n(buf + s, n)\<close>: value-initialises \<open>n\<close> objects in
  raw storage, destroying the ones built so far when a constructor throws.
\<close>

fun uninitialized_value_construct_from ::
  "'a elem_type \<Rightarrow> 'a mem \<Rightarrow> nat \<Rightarrow> nat \<Rightarrow> nat \<Rightarrow> 'a probe \<Rightarrow> ('a mem \<times> 'a probe, unit) outcome"
where
  "uninitialized_value_construct_from T buf result cur 0 pr = Returns (buf, pr) ()"
| "uninitialized_value_construct_from T buf result cur (Suc n) pr =
     (if cur < length buf then
        (case may_throw (ValueCtor (value_initialized T)) pr of
           Inl pr1 \<Rightarrow>
             (case destroy_n buf result (cur - result) pr1 of
                None \<Rightarrow> Undefined
              | Some (buf', pr2) \<Rightarrow> Throws (buf', pr2))
         | Inr pr1 \<Rightarrow>
             uninitialized_value_construct_from T (buf[cur := Some (value_initialized T)])
               result (Suc cur) n pr1)
      else Undefined)"

definition uninitialized_value_construct_n ::
  "'a elem_type \<Rightarrow> 'a mem \<Rightarrow> nat \<Rightarrow> nat \<Rightarrow> 'a probe \<Rightarrow> ('a mem \<times> 'a probe, unit) outcome"
where
  "uninitialized_value_construct_n T buf s n pr = uninitialized_value_construct_from T buf s s n pr"

text \<open>
  \<^verbatim>\<open>std::copy(src + s, src + s + n, dst + d)\<close> between two buffers: copy-assigns \<open>n\<close>
  live objects onto \<open>n\<close> live objects, front to back. An assignment that throws leaves
  the objects assigned so far assigned.
\<close>

fun copy_n ::
  "'a mem \<Rightarrow> nat \<Rightarrow> nat \<Rightarrow> 'a mem \<Rightarrow> nat \<Rightarrow> 'a probe \<Rightarrow> ('a mem \<times> 'a probe, unit) outcome"
where
  "copy_n src s 0 dst d pr = Returns (dst, pr) ()"
| "copy_n src s (Suc n) dst d pr =
     (if s < length src \<and> d < length dst then
        (case (src ! s, dst ! d) of
           (Some x, Some y) \<Rightarrow>
             (case may_throw (CopyAssign x) pr of
                Inl pr1 \<Rightarrow> Throws (dst, pr1)
              | Inr pr1 \<Rightarrow> copy_n src (Suc s) n (dst[d := Some x]) (Suc d) pr1)
         | _ \<Rightarrow> Undefined)
      else Undefined)"

text \<open>
  \<^verbatim>\<open>std::move(buf + f, buf + f + n, buf + d)\<close> inside one buffer: move-assigns front to
  back.
\<close>

fun move_n ::
  "'a elem_type \<Rightarrow> 'a mem \<Rightarrow> nat \<Rightarrow> nat \<Rightarrow> nat \<Rightarrow> 'a probe \<Rightarrow> ('a mem \<times> 'a probe, unit) outcome"
where
  "move_n T buf f 0 d pr = Returns (buf, pr) ()"
| "move_n T buf f (Suc n) d pr =
     (if f < length buf \<and> d < length buf then
        (case (buf ! f, buf ! d) of
           (Some x, Some y) \<Rightarrow>
             (case may_throw (MoveAssign x) pr of
                Inl pr1 \<Rightarrow> Throws (buf, pr1)
              | Inr pr1 \<Rightarrow>
                  move_n T (buf[f := Some (moved_from T x), d := Some x]) (Suc f) n (Suc d) pr1)
         | _ \<Rightarrow> Undefined)
      else Undefined)"

text \<open>
  \<^verbatim>\<open>std::move_backward(buf + f, buf + f + n, buf + d_last)\<close> inside one buffer:
  move-assigns back to front, \<^verbatim>\<open>*(--d_last) = std::move(*(--last))\<close>.
\<close>

fun move_backward ::
  "'a elem_type \<Rightarrow> 'a mem \<Rightarrow> nat \<Rightarrow> nat \<Rightarrow> nat \<Rightarrow> 'a probe \<Rightarrow> ('a mem \<times> 'a probe, unit) outcome"
where
  "move_backward T buf f 0 d_last pr = Returns (buf, pr) ()"
| "move_backward T buf f (Suc n) d_last pr =
     (if f + n < length buf \<and> 0 < d_last \<and> d_last - 1 < length buf then
        (case (buf ! (f + n), buf ! (d_last - 1)) of
           (Some x, Some y) \<Rightarrow>
             (case may_throw (MoveAssign x) pr of
                Inl pr1 \<Rightarrow> Throws (buf, pr1)
              | Inr pr1 \<Rightarrow>
                  move_backward T (buf[f + n := Some (moved_from T x), d_last - 1 := Some x])
                    f n (d_last - 1) pr1)
         | _ \<Rightarrow> Undefined)
      else Undefined)"

subsection \<open>RawMemory\<close>

text \<open>A data member \<^verbatim>\<open>x_\<close> of the source is the field \<open>m_x\<close> of the record.\<close>

record 'a RawMemory =
  m_buffer :: "'a mem"
  m_capacity :: nat

text \<open>
  \<^verbatim>\<open>Allocate(n)\<close>: the null pointer for \<open>n = 0\<close>, otherwise the block that
  \<^verbatim>\<open>operator new(n * sizeof(T))\<close> returns. The product is computed in \<^verbatim>\<open>size_t\<close>, modulo
  \<open>2 ^ 64\<close>; the block has room for as many objects as its bytes hold.
\<close>

definition Allocate :: "'a elem_type \<Rightarrow> nat \<Rightarrow> 'a mem" where
  "Allocate T n =
     (if n \<noteq> 0 then replicate (((n * size_of T) mod 2 ^ 64) div size_of T) None else [])"

text \<open>The default constructor and \<^verbatim>\<open>RawMemory(size_t capacity)\<close>.\<close>

definition RawMemory_default :: "'a RawMemory" where
  "RawMemory_default = \<lparr>m_buffer = [], m_capacity = 0\<rparr>"

definition RawMemory_new :: "'a elem_type \<Rightarrow> nat \<Rightarrow> 'a RawMemory" where
  "RawMemory_new T capacity = \<lparr>m_buffer = Allocate T capacity, m_capacity = capacity\<rparr>"

text \<open>\<^verbatim>\<open>RawMemory::Swap\<close> exchanges the buffer pointers and the capacities.\<close>

definition RawMemory_Swap :: "'a RawMemory \<Rightarrow> 'a RawMemory \<Rightarrow> 'a RawMemory \<times> 'a RawMemory" where
  "RawMemory_Swap m other =
     (m\<lparr>m_buffer := m_buffer other, m_capacity := m_capacity other\<rparr>,
      other\<lparr>m_buffer := m_buffer m, m_capacity := m_capacity m\<rparr>)"

subsection \<open>Vector\<close>

record 'a Vector =
  m_data :: "'a RawMemory"
  m_size :: nat

definition Size :: "'a Vector \<Rightarrow> nat" where
  "Size v = m_size v"

definition Capacity :: "'a Vector \<Rightarrow> nat" where
  "Capacity v = m_capacity (m_data v)"

text \<open>Writing a buffer back into the vector's \<^verbatim>\<open>data_\<close>.\<close>

definition with_buffer :: "'a Vector \<Rightarrow> 'a mem \<Rightarrow> 'a Vector" where
  "with_buffer v buf = v\<lparr>m_data := (m_data v)\<lparr>m_buffer := buf\<rparr>\<rparr>"

text \<open>
  \<^verbatim>\<open>operator[]\<close>: the slot at \<open>index\<close>; \<open>None\<close> where the access is undefined (outside the
  storage, or raw storage).
\<close>

definition at :: "'a Vector \<Rightarrow> nat \<Rightarrow> 'a option" where
  "at v index = (if index < length (m_buffer (m_data v)) then m_buffer (m_data v) ! index else None)"

text \<open>\<^verbatim>\<open>Vector() = default\<close>.\<close>

definition Vector_default :: "'a Vector" where
  "Vector_default = \<lparr>m_data = RawMemory_default, m_size = 0\<rparr>"

text \<open>
  \<^verbatim>\<open>explicit Vector(size_t size)\<close>. When a constructor throws, no vector comes into
  existence.
\<close>

definition Vector_sized :: "'a elem_type \<Rightarrow> nat \<Rightarrow> 'a probe \<Rightarrow> ('a probe, 'a Vector) outcome" where
  "Vector_sized T n pr =
     (let d = RawMemory_new T n in
      case uninitialized_value_construct_n T (m_buffer d) 0 n pr of
        Returns (buf, pr1) u \<Rightarrow> Returns pr1 \<lparr>m_data = d\<lparr>m_buffer := buf\<rparr>, m_size = n\<rparr>
      | Throws (buf, pr1) \<Rightarrow> Throws pr1
      | Undefined \<Rightarrow> Undefined)"

text \<open>\<^verbatim>\<open>Vector(const Vector& other)\<close>.\<close>

definition Vector_copy ::
  "'a elem_type \<Rightarrow> 'a Vector \<Rightarrow> 'a probe \<Rightarrow> ('a probe, 'a Vector) outcome"
where
  "Vector_copy T other pr =
     (let d = RawMemory_new T (m_size other) in
      case uninitialized_copy_n (m_buffer (m_data other)) 0 (m_size other) (m_buffer d) 0 pr of
        Returns (src, buf, pr1) u \<Rightarrow> Returns pr1 \<lparr>m_data = d\<lparr>m_buffer := buf\<rparr>, m_size = m_size other\<rparr>
      | Throws (src, buf, pr1) \<Rightarrow> Throws pr1
      | Undefined \<Rightarrow> Undefined)"

text \<open>\<^verbatim>\<open>~Vector()\<close>: destroys the \<^verbatim>\<open>size_\<close> objects; the storage is then released.\<close>

definition Vector_destroy :: "'a Vector \<Rightarrow> 'a probe \<Rightarrow> 'a probe option" where
  "Vector_destroy v pr = map_option snd (destroy_n (m_buffer (m_data v)) 0 (m_size v) pr)"

text \<open>
  \<^verbatim>\<open>CopyOrMoveElements(old_memory, new_memory, size)\<close>: relocates \<open>n\<close> objects from
  offset \<open>s\<close> of the old buffer to offset \<open>d\<close> of the new one, by move when the move
  constructor cannot throw or there is no copy constructor, by copy otherwise, and then
  destroys the \<open>n\<close> objects of the old buffer.
\<close>

definition CopyOrMoveElements ::
  "'a elem_type \<Rightarrow> 'a mem \<Rightarrow> nat \<Rightarrow> 'a mem \<Rightarrow> nat \<Rightarrow> nat \<Rightarrow> 'a probe
     \<Rightarrow> ('a mem \<times> 'a mem \<times> 'a probe, unit) outcome"
where
  "CopyOrMoveElements T old_memory s new_memory d n pr =
     (case (if nothrow_move_constructible T \<or> \<not> copy_constructible T
            then uninitialized_move_n T old_memory s n new_memory d pr
            else uninitialized_copy_n old_memory s n new_memory d pr) of
        Returns (om, nm, pr1) u \<Rightarrow>
          (case destroy_n om s n pr1 of
             None \<Rightarrow> Undefined
           | Some (om', pr2) \<Rightarrow> Returns (om', nm, pr2) ())
      | Throws st \<Rightarrow> Throws st
      | Undefined \<Rightarrow> Undefined)"

text \<open>\<^verbatim>\<open>Reserve(new_capacity)\<close>. The exchanged-out old storage is released.\<close>

definition Reserve ::
  "'a elem_type \<Rightarrow> 'a Vector \<Rightarrow> nat \<Rightarrow> 'a probe \<Rightarrow> ('a Vector \<times> 'a probe, unit) outcome"
where
  "Reserve T v new_capacity pr =
     (if new_capacity \<le> m_capacity (m_data v) then Returns (v, pr) ()
      else
        (let new_data = RawMemory_new T new_capacity in
         case CopyOrMoveElements T (m_buffer (m_data v)) 0 (m_buffer new_data) 0 (m_size v) pr of
           Returns (om, nm, pr1) u \<Rightarrow>
             Returns (v\<lparr>m_data := fst (RawMemory_Swap ((m_data v)\<lparr>m_buffer := om\<rparr>)
                                         (new_data\<lparr>m_buffer := nm\<rparr>))\<rparr>, pr1) ()
         | Throws (om, nm, pr1) \<Rightarrow> Throws (with_buffer v om, pr1)
         | Undefined \<Rightarrow> Undefined))"

text \<open>\<^verbatim>\<open>PopBack()\<close>.\<close>

definition PopBack :: "'a Vector \<Rightarrow> 'a probe \<Rightarrow> ('a Vector \<times> 'a probe, unit) outcome" where
  "PopBack v pr =
     (if m_size v > 0 then
        (case destroy_at (m_buffer (m_data v)) (m_size v - 1) pr of
           None \<Rightarrow> Undefined
         | Some (buf, pr1) \<Rightarrow> Returns ((with_buffer v buf)\<lparr>m_size := m_size v - 1\<rparr>, pr1) ())
      else Returns (v, pr) ())"

text \<open>\<^verbatim>\<open>Resize(new_size)\<close>.\<close>

definition Resize ::
  "'a elem_type \<Rightarrow> 'a Vector \<Rightarrow> nat \<Rightarrow> 'a probe \<Rightarrow> ('a Vector \<times> 'a probe, unit) outcome"
where
  "Resize T v new_size pr =
     (if new_size < m_size v then
        (case destroy_n (m_buffer (m_data v)) new_size (m_size v - new_size) pr of
           None \<Rightarrow> Undefined
         | Some (buf, pr1) \<Rightarrow> Returns ((with_buffer v buf)\<lparr>m_size := new_size\<rparr>, pr1) ())
      else
        (case Reserve T v new_size pr of
           Returns (v1, pr1) u \<Rightarrow>
             (case uninitialized_value_construct_n T (m_buffer (m_data v1)) (m_size v1)
                     (new_size - m_size v1) pr1 of
                Returns (buf, pr2) u \<Rightarrow> Returns ((with_buffer v1 buf)\<lparr>m_size := new_size\<rparr>, pr2) ()
              | Throws (buf, pr2) \<Rightarrow> Throws (with_buffer v1 buf, pr2)
              | Undefined \<Rightarrow> Undefined)
         | Throws st \<Rightarrow> Throws st
         | Undefined \<Rightarrow> Undefined))"

subsection \<open>Emplace, Insert and Erase\<close>

text \<open>
  \<^verbatim>\<open>int new_pos = pos - begin()\<close>: the pointer difference is converted to a 32-bit
  \<^verbatim>\<open>int\<close>, which keeps its low 32 bits in two's complement.
\<close>

definition to_int :: "nat \<Rightarrow> int" where
  "to_int p = (int p + 2 ^ 31) mod 2 ^ 32 - 2 ^ 31"

text \<open>\<^verbatim>\<open>size_ - new_pos\<close> on \<^verbatim>\<open>size_t\<close> (64 bits), for a non-negative \<^verbatim>\<open>new_pos\<close>.\<close>

definition size_t_minus :: "nat \<Rightarrow> nat \<Rightarrow> nat" where
  "size_t_minus a b = (if b \<le> a then a - b else a + 2 ^ 64 - b)"

text \<open>
  The branch of \<^verbatim>\<open>Emplace\<close> taken when \<^verbatim>\<open>size_ >= data_.Capacity()\<close>: the new object is
  built in the new storage first, then the objects before and after the position are
  relocated around it. The handler of the \<^verbatim>\<open>try\<close> block destroys the new object and
  rethrows; the new storage is released on the way out. The placement of the new object
  at \<^verbatim>\<open>new_data.GetAddress() + new_pos\<close> needs a slot of the new storage.
\<close>

definition Emplace_realloc ::
  "'a elem_type \<Rightarrow> 'a Vector \<Rightarrow> int \<Rightarrow> 'a init \<Rightarrow> 'a probe \<Rightarrow> ('a Vector \<times> 'a probe, nat) outcome"
where
  "Emplace_realloc T v new_pos a pr =
     (let new_capacity = (if m_size v = 0 then 1 else m_size v * 2);
          new_data = RawMemory_new T new_capacity;
          p = nat new_pos
      in
      if 0 \<le> new_pos \<and> p < length (m_buffer new_data) then
        (case construct T a pr of
           Inl pr1 \<Rightarrow> Throws (v, pr1)
         | Inr pr1 \<Rightarrow>
             (case
                (case CopyOrMoveElements T (m_buffer (m_data v)) 0
                        ((m_buffer new_data)[p := Some (init_value a)]) 0 p pr1 of
                   Returns (om, nm, pr2) u \<Rightarrow>
                     CopyOrMoveElements T om p nm (p + 1) (size_t_minus (m_size v) p) pr2
                 | Throws st \<Rightarrow> Throws st
                 | Undefined \<Rightarrow> Undefined)
              of
                Returns (om, nm, pr3) u \<Rightarrow>
                  Returns (v\<lparr>m_data := fst (RawMemory_Swap ((m_data v)\<lparr>m_buffer := om\<rparr>)
                                              (new_data\<lparr>m_buffer := nm\<rparr>)),
                             m_size := m_size v + 1\<rparr>, pr3) p
              | Throws (om, nm, pr3) \<Rightarrow>
                  (case destroy_at nm p pr3 of
                     None \<Rightarrow> Undefined
                   | Some (nm', pr4) \<Rightarrow> Throws (with_buffer v om, pr4))
              | Undefined \<Rightarrow> Undefined))
      else Undefined)"

text \<open>
  The branch taken when there is spare capacity and \<^verbatim>\<open>pos != end()\<close>: a temporary
  \<^verbatim>\<open>new_s\<close> is built, the last object is move-constructed into the slot at \<^verbatim>\<open>end()\<close>,
  the objects from the position on are shifted by \<^verbatim>\<open>std::move_backward\<close>, and the
  temporary is move-assigned to the position. The temporary is destroyed on every way
  out. The range of \<^verbatim>\<open>std::move_backward\<close> starts at \<^verbatim>\<open>begin() + new_pos\<close>, which has
  to be a pointer into the buffer that does not lie behind \<^verbatim>\<open>end() - 1\<close>.
\<close>

definition Emplace_shift ::
  "'a elem_type \<Rightarrow> 'a Vector \<Rightarrow> int \<Rightarrow> 'a init \<Rightarrow> 'a probe \<Rightarrow> ('a Vector \<times> 'a probe, nat) outcome"
where
  "Emplace_shift T v new_pos a pr =
     (let buf = m_buffer (m_data v); new_s = init_value a; p = nat new_pos in
      case construct T a pr of
        Inl pr1 \<Rightarrow> Throws (v, pr1)
      | Inr pr1 \<Rightarrow>
          if 0 < m_size v \<and> m_size v < length buf then
            (case buf ! (m_size v - 1) of
               None \<Rightarrow> Undefined
             | Some l \<Rightarrow>
                 (case move_construct T l pr1 of
                    Inl pr2 \<Rightarrow> Throws (v, no_throw (Dtor new_s) pr2)
                  | Inr pr2 \<Rightarrow>
                      if 0 \<le> new_pos \<and> p \<le> m_size v - 1 then
                        (case move_backward T
                                (buf[m_size v - 1 := Some (moved_from T l), m_size v := Some l])
                                p (m_size v - 1 - p) (m_size v) pr2 of
                           Returns (buf2, pr3) u \<Rightarrow>
                             (case buf2 ! p of
                                None \<Rightarrow> Undefined
                              | Some y \<Rightarrow>
                                  (case may_throw (MoveAssign new_s) pr3 of
                                     Inl pr4 \<Rightarrow>
                                       Throws (with_buffer v buf2, no_throw (Dtor new_s) pr4)
                                   | Inr pr4 \<Rightarrow>
                                       Returns ((with_buffer v (buf2[p := Some new_s]))
                                                  \<lparr>m_size := m_size v + 1\<rparr>,
                                                no_throw (Dtor (moved_from T new_s)) pr4) p))
                         | Throws (buf2, pr3) \<Rightarrow>
                             Throws (with_buffer v buf2, no_throw (Dtor new_s) pr3)
                         | Undefined \<Rightarrow> Undefined)
                      else Undefined))
          else Undefined)"

text \<open>
  The branch taken when there is spare capacity and \<^verbatim>\<open>pos == end()\<close>. The returned
  iterator \<^verbatim>\<open>begin() + new_pos\<close> is formed after the object has been built.
\<close>

definition Emplace_end ::
  "'a elem_type \<Rightarrow> 'a Vector \<Rightarrow> int \<Rightarrow> 'a init \<Rightarrow> 'a probe \<Rightarrow> ('a Vector \<times> 'a probe, nat) outcome"
where
  "Emplace_end T v new_pos a pr =
     (let buf = m_buffer (m_data v) in
      if m_size v < length buf then
        (case construct T a pr of
           Inl pr1 \<Rightarrow> Throws (v, pr1)
         | Inr pr1 \<Rightarrow>
             if 0 \<le> new_pos then
               Returns ((with_buffer v (buf[m_size v := Some (init_value a)]))
                          \<lparr>m_size := m_size v + 1\<rparr>, pr1) (nat new_pos)
             else Undefined)
      else Undefined)"

text \<open>
  \<^verbatim>\<open>Emplace(pos, args...)\<close>; \<open>pos\<close> is the offset of the iterator from \<^verbatim>\<open>begin()\<close>. Each
  branch forms the pointer \<^verbatim>\<open>begin() + new_pos\<close> or \<^verbatim>\<open>new_data.GetAddress() + new_pos\<close>,
  which is undefined for a negative \<^verbatim>\<open>new_pos\<close>. The result is the offset of the
  returned iterator \<^verbatim>\<open>begin() + new_pos\<close>.
\<close>

definition Emplace ::
  "'a elem_type \<Rightarrow> 'a Vector \<Rightarrow> nat \<Rightarrow> 'a init \<Rightarrow> 'a probe \<Rightarrow> ('a Vector \<times> 'a probe, nat) outcome"
where
  "Emplace T v pos a pr =
     (let new_pos = to_int pos in
      if m_size v \<ge> m_capacity (m_data v) then Emplace_realloc T v new_pos a pr
      else if pos \<noteq> m_size v then Emplace_shift T v new_pos a pr
      else Emplace_end T v new_pos a pr)"

text \<open>\<^verbatim>\<open>Insert(pos, const T&)\<close> and \<^verbatim>\<open>Insert(pos, T&&)\<close>.\<close>

definition Insert ::
  "'a elem_type \<Rightarrow> 'a Vector \<Rightarrow> nat \<Rightarrow> 'a \<Rightarrow> 'a probe \<Rightarrow> ('a Vector \<times> 'a probe, nat) outcome"
where
  "Insert T v pos val pr = Emplace T v pos (CopyOf val) pr"

definition Insert_move ::
  "'a elem_type \<Rightarrow> 'a Vector \<Rightarrow> nat \<Rightarrow> 'a \<Rightarrow> 'a probe \<Rightarrow> ('a Vector \<times> 'a probe, nat) outcome"
where
  "Insert_move T v pos val pr = Emplace T v pos (MoveOf val) pr"

text \<open>
  \<^verbatim>\<open>EmplaceBack(args...)\<close> dereferences the iterator that \<^verbatim>\<open>Emplace(end(), args...)\<close>
  returns; the result is the offset of the object referred to.
\<close>

definition EmplaceBack ::
  "'a elem_type \<Rightarrow> 'a Vector \<Rightarrow> 'a init \<Rightarrow> 'a probe \<Rightarrow> ('a Vector \<times> 'a probe, nat) outcome"
where
  "EmplaceBack T v a pr =
     (case Emplace T v (m_size v) a pr of
        Returns (v', pr') r \<Rightarrow> (if at v' r = None then Undefined else Returns (v', pr') r)
      | Throws st \<Rightarrow> Throws st
      | Undefined \<Rightarrow> Undefined)"

text \<open>\<^verbatim>\<open>PushBack(value)\<close>, for a \<^verbatim>\<open>const T&\<close> (\<open>CopyOf\<close>) or a \<^verbatim>\<open>T&&\<close> (\<open>MoveOf\<close>).\<close>

definition PushBack ::
  "'a elem_type \<Rightarrow> 'a Vector \<Rightarrow> 'a init \<Rightarrow> 'a probe \<Rightarrow> ('a Vector \<times> 'a probe, unit) outcome"
where
  "PushBack T v a pr =
     (case EmplaceBack T v a pr of
        Returns st r \<Rightarrow> Returns st ()
      | Throws st \<Rightarrow> Throws st
      | Undefined \<Rightarrow> Undefined)"

text \<open>
  \<^verbatim>\<open>Erase(pos)\<close>: \<^verbatim>\<open>std::move(begin() + new_pos + 1, end(), begin() + new_pos)\<close>, then
  \<^verbatim>\<open>PopBack()\<close>. The range of \<^verbatim>\<open>std::move\<close> is not a range when its start lies behind
  \<^verbatim>\<open>end()\<close>.
\<close>

definition Erase ::
  "'a elem_type \<Rightarrow> 'a Vector \<Rightarrow> nat \<Rightarrow> 'a probe \<Rightarrow> ('a Vector \<times> 'a probe, nat) outcome"
where
  "Erase T v pos pr =
     (let new_pos = to_int pos in
      if new_pos < 0 then Undefined
      else if nat new_pos + 1 > m_size v then Undefined
      else
        (case move_n T (m_buffer (m_data v)) (nat new_pos + 1) (m_size v - (nat new_pos + 1))
                (nat new_pos) pr of
           Returns (buf, pr1) u \<Rightarrow>
             (case PopBack (with_buffer v buf) pr1 of
                Returns st u \<Rightarrow> Returns st (nat new_pos)
              | Throws st \<Rightarrow> Throws st
              | Undefined \<Rightarrow> Undefined)
         | Throws (buf, pr1) \<Rightarrow> Throws (with_buffer v buf, pr1)
         | Undefined \<Rightarrow> Undefined))"

subsection \<open>Operations on two vectors\<close>

text \<open>
  \<^verbatim>\<open>Swap(Vector& other)\<close> on two distinct objects (such as a vector and a local
  temporary): the storage and the sizes are exchanged.
\<close>

definition Swap :: "'a Vector \<Rightarrow> 'a Vector \<Rightarrow> 'a Vector \<times> 'a Vector" where
  "Swap v other =
     (let (d1, d2) = RawMemory_Swap (m_data v) (m_data other)
      in (v\<lparr>m_data := d1, m_size := m_size other\<rparr>, other\<lparr>m_data := d2, m_size := m_size v\<rparr>))"

text \<open>
  The operations whose second operand is given by reference, and may be the object
  itself, work on a store of vectors; a reference is an address of the store.
\<close>

type_synonym 'a store = "nat \<Rightarrow> 'a Vector"

text \<open>
  \<^verbatim>\<open>Swap(Vector& other)\<close> through references: \<^verbatim>\<open>data_.Swap(other.data_)\<close> and then
  \<^verbatim>\<open>std::swap(size_, other.size_)\<close>, each reading the store as the statement before
  left it.
\<close>

definition Swap_at :: "nat \<Rightarrow> nat \<Rightarrow> 'a store \<Rightarrow> 'a store" where
  "Swap_at this other s =
     (let (d1, d2) = RawMemory_Swap (m_data (s this)) (m_data (s other));
          s1 = s(this := (s this)\<lparr>m_data := d1\<rparr>);
          s2 = s1(other := (s1 other)\<lparr>m_data := d2\<rparr>);
          n1 = m_size (s2 this);
          n2 = m_size (s2 other);
          s3 = s2(this := (s2 this)\<lparr>m_size := n2\<rparr>)
      in s3(other := (s3 other)\<lparr>m_size := n1\<rparr>))"

text \<open>
  \<^verbatim>\<open>Vector(Vector&& other) noexcept\<close>: the new object, at the address \<open>this\<close>, starts
  from its default member initialisers and swaps with \<open>other\<close>.
\<close>

definition Vector_move ::
  "nat \<Rightarrow> nat \<Rightarrow> 'a store \<Rightarrow> 'a probe \<Rightarrow> ('a store \<times> 'a probe, unit) outcome"
where
  "Vector_move this other s pr = Returns (Swap_at this other (s(this := Vector_default)), pr) ()"

text \<open>\<^verbatim>\<open>Vector& operator=(Vector&& rhs) noexcept\<close>.\<close>

definition move_assign ::
  "nat \<Rightarrow> nat \<Rightarrow> 'a store \<Rightarrow> 'a probe \<Rightarrow> ('a store \<times> 'a probe, unit) outcome"
where
  "move_assign this rhs s pr =
     (if this \<noteq> rhs then Returns (Swap_at this rhs s, pr) () else Returns (s, pr) ())"

text \<open>
  \<^verbatim>\<open>Vector& operator=(const Vector& rhs)\<close>. In the copy-and-swap branch the temporary
  \<^verbatim>\<open>rhs_copy\<close> holds the former contents after the swap and is destroyed at the end of
  its scope.
\<close>

definition copy_assign ::
  "'a elem_type \<Rightarrow> nat \<Rightarrow> nat \<Rightarrow> 'a store \<Rightarrow> 'a probe \<Rightarrow> ('a store \<times> 'a probe, unit) outcome"
where
  "copy_assign T this rhs s pr =
     (if this \<noteq> rhs then
        (if m_size (s rhs) > m_capacity (m_data (s this)) then
           (case Vector_copy T (s rhs) pr of
              Returns pr1 rhs_copy \<Rightarrow>
                (let (v, rhs_copy') = Swap (s this) rhs_copy in
                 case Vector_destroy rhs_copy' pr1 of
                   None \<Rightarrow> Undefined
                 | Some pr2 \<Rightarrow> Returns (s(this := v), pr2) ())
            | Throws pr1 \<Rightarrow> Throws (s, pr1)
            | Undefined \<Rightarrow> Undefined)
         else
           (let v = s this; r = s rhs in
            if m_size r < m_size v then
              (case copy_n (m_buffer (m_data r)) 0 (m_size r) (m_buffer (m_data v)) 0 pr of
                 Returns (buf, pr1) u \<Rightarrow>
                   (case destroy_n buf (m_size r) (m_size v - m_size r) pr1 of
                      None \<Rightarrow> Undefined
                    | Some (buf', pr2) \<Rightarrow>
                        Returns (s(this := (with_buffer v buf')\<lparr>m_size := m_size r\<rparr>), pr2) ())
               | Throws (buf, pr1) \<Rightarrow> Throws (s(this := with_buffer v buf), pr1)
               | Undefined \<Rightarrow> Undefined)
            else
              (case copy_n (m_buffer (m_data r)) 0 (m_size v) (m_buffer (m_data v)) 0 pr of
                 Returns (buf, pr1) u \<Rightarrow>
                   (case uninitialized_copy_n (m_buffer (m_data r)) (m_size v)
                           (m_size r - m_size v) buf (m_size v) pr1 of
                      Returns (src, buf', pr2) u \<Rightarrow>
                        Returns (s(this := (with_buffer v buf')\<lparr>m_size := m_size r\<rparr>), pr2) ()
                    | Throws (src, buf', pr2) \<Rightarrow> Throws (s(this := with_buffer v buf'), pr2)
                    | Undefined \<Rightarrow> Undefined)
               | Throws (buf, pr1) \<Rightarrow> Throws (s(this := with_buffer v buf), pr1)
               | Undefined \<Rightarrow> Undefined)))
      else Returns (s, pr) ())"

subsection \<open>Sequences of calls\<close>

text \<open>\<^verbatim>\<open>PushBack\<close> called once for each element of a list, stopping at the first failure.\<close>

fun PushBack_all ::
  "'a elem_type \<Rightarrow> 'a Vector \<Rightarrow> 'a init list \<Rightarrow> 'a probe \<Rightarrow> ('a Vector \<times> 'a probe, unit) outcome"
where
  "PushBack_all T v [] pr = Returns (v, pr) ()"
| "PushBack_all T v (a # as) pr =
     (case PushBack T v a pr of
        Returns (v', pr') u \<Rightarrow> PushBack_all T v' as pr'
      | Throws st \<Rightarrow> Throws st
      | Undefined \<Rightarrow> Undefined)"

subsection \<open>The state invariant and the contents of a vector\<close>

text \<open>
  The storage has \<^verbatim>\<open>Capacity()\<close> slots, \<^verbatim>\<open>Size()\<close> is at most \<^verbatim>\<open>Capacity()\<close>, the slots
  below \<^verbatim>\<open>Size()\<close> hold objects and the slots from \<^verbatim>\<open>Size()\<close> on are raw.
\<close>

definition VectorInv :: "'a Vector \<Rightarrow> bool" where
  "VectorInv v \<longleftrightarrow>
     length (m_buffer (m_data v)) = m_capacity (m_data v) \<and>
     m_size v \<le> m_capacity (m_data v) \<and>
     list_all (\<lambda>c. c \<noteq> None) (take (m_size v) (m_buffer (m_data v))) \<and>
     list_all (\<lambda>c. c = None) (drop (m_size v) (m_buffer (m_data v)))"

text \<open>The values of the range \<^verbatim>\<open>[begin(), end())\<close>.\<close>

definition elements :: "'a Vector \<Rightarrow> 'a list" where
  "elements v = map the (take (m_size v) (m_buffer (m_data v)))"

subsection \<open>Element types, probes and vectors for concrete runs\<close>

text \<open>
  Element types over the natural numbers: one of one byte whose copy and move
  constructors may throw (relocation copies), one of one byte whose move constructor
  cannot throw (relocation moves, and leaves 0 behind), and one of four bytes, as an
  \<^verbatim>\<open>int\<close> is, whose move constructor cannot throw.
\<close>

definition throwing_type :: "nat elem_type" where
  "throwing_type =
     \<lparr>size_of = 1, nothrow_move_constructible = False, copy_constructible = True,
      moved_from = id, value_initialized = 0\<rparr>"

definition nothrow_type :: "nat elem_type" where
  "nothrow_type =
     \<lparr>size_of = 1, nothrow_move_constructible = True, copy_constructible = True,
      moved_from = (\<lambda>x. 0), value_initialized = 0\<rparr>"

definition four_byte_type :: "nat elem_type" where
  "four_byte_type =
     \<lparr>size_of = 4, nothrow_move_constructible = True, copy_constructible = True,
      moved_from = id, value_initialized = 0\<rparr>"

text \<open>
  \<open>n\<close> objects of the type fit a block: the number of bytes they take is a value of
  \<^verbatim>\<open>size_t\<close>. This holds of every number of objects that a program holds in storage.
\<close>

definition fits :: "'a elem_type \<Rightarrow> nat \<Rightarrow> bool" where
  "fits T n \<longleftrightarrow> 0 < size_of T \<and> n * size_of T < 2 ^ 64"

text \<open>A probe with an empty trace: one that never throws, and one that throws at operation \<open>k + 1\<close>.\<close>

definition never_fails :: "'a probe" where
  "never_fails = \<lparr>countdown = None, trace = []\<rparr>"

definition fails_after :: "nat \<Rightarrow> 'a probe" where
  "fails_after k = \<lparr>countdown = Some k, trace = []\<rparr>"

text \<open>The vector that holds the objects \<open>xs\<close> in storage of \<open>c\<close> slots.\<close>

definition vec :: "'a list \<Rightarrow> nat \<Rightarrow> 'a Vector" where
  "vec xs c =
     \<lparr>m_data = \<lparr>m_buffer = map Some xs @ replicate (c - length xs) None, m_capacity = c\<rparr>,
      m_size = length xs\<rparr>"

text \<open>The store that holds the vectors \<open>vs\<close> at the addresses \<open>0, 1, \<dots>\<close>.\<close>

definition store_of :: "'a Vector list \<Rightarrow> 'a store" where
  "store_of vs a = (if a < length vs then vs ! a else Vector_default)"

section \<open>Properties\<close>

subsection \<open>Empty ranges\<close>

lemma uninitialized_n_zero [simp]:
  "uninitialized_copy_n src s 0 dst d pr = Returns (src, dst, pr) ()"
  "uninitialized_move_n T src s 0 dst d pr = Returns (src, dst, pr) ()"
  "uninitialized_value_construct_n T buf s 0 pr = Returns (buf, pr) ()"
  by (simp_all add: uninitialized_copy_n_def uninitialized_move_n_def
      uninitialized_value_construct_n_def)

subsection \<open>Allocation\<close>

lemma fits_mono:
  assumes "fits T n" "m \<le> n"
  shows "fits T m"
proof -
  have "m * size_of T \<le> n * size_of T" using assms(2) by simp
  then show ?thesis using assms(1) unfolding fits_def by (meson le_less_trans)
qed

lemma Allocate_fits:
  assumes "fits T n"
  shows "Allocate T n = replicate n None"
  using assms by (simp add: Allocate_def fits_def)

lemma RawMemory_new_fits:
  assumes "fits T n"
  shows "RawMemory_new T n = \<lparr>m_buffer = replicate n None, m_capacity = n\<rparr>"
  using assms by (simp add: RawMemory_new_def Allocate_fits)

lemma length_Allocate_le:
  "length (Allocate T n) \<le> n"
proof (cases "size_of T = 0")
  case True
  then show ?thesis by (simp add: Allocate_def)
next
  case False
  have "(n * size_of T) mod 2 ^ 64 div size_of T \<le> n * size_of T div size_of T"
    by (rule div_le_mono) simp
  then show ?thesis using False by (simp add: Allocate_def)
qed

lemma Allocate_raw:
  "Allocate T n = replicate (length (Allocate T n)) None"
  by (simp add: Allocate_def)

lemma Allocate_full:
  assumes "n \<le> length (Allocate T n)"
  shows "Allocate T n = replicate n None"
  using assms length_Allocate_le [of T n] Allocate_raw [of T n] by simp

text \<open>The allocations of the concrete runs: a few objects of one byte each.\<close>

lemma Allocate_small:
  assumes "size_of T = Suc 0" "n \<le> 64"
  shows "Allocate T n = replicate n None"
proof -
  have "n < 2 ^ 64" using assms(2) by simp
  then show ?thesis using assms(1) by (simp add: Allocate_def)
qed

subsection \<open>The element operations\<close>

lemma may_throw_Inr:
  "may_throw e pr = Inr pr1 \<Longrightarrow> trace pr1 = trace pr @ [e] \<and> (countdown pr = None \<longrightarrow> countdown pr1 = None)"
  by (auto simp: may_throw_def no_throw_def split: option.splits nat.splits)

lemma may_throw_never:
  "countdown pr = None \<Longrightarrow> may_throw e pr = Inr (no_throw e pr)"
  by (simp add: may_throw_def)

lemma countdown_no_throw [simp]: "countdown (no_throw e pr) = countdown pr"
  by (simp add: no_throw_def)

lemma trace_no_throw [simp]: "trace (no_throw e pr) = trace pr @ [e]"
  by (simp add: no_throw_def)

lemma move_construct_never:
  "countdown pr = None \<Longrightarrow> move_construct T x pr = Inr (no_throw (MoveCtor x) pr)"
  by (simp add: move_construct_def may_throw_never)

lemma construct_never:
  "countdown pr = None \<Longrightarrow> \<exists>e. construct T a pr = Inr (no_throw e pr)"
  by (cases a) (auto simp: may_throw_never move_construct_never)

lemma uninitialized_copy_from_Returns:
  "uninitialized_copy_from src s n dst result d pr = Returns (src', dst', pr') u \<Longrightarrow>
     src' = src \<and> length dst' = length dst \<and>
     (0 < n \<longrightarrow> s + n \<le> length src \<and> d + n \<le> length dst) \<and>
     (\<forall>i<n. \<exists>x. src ! (s + i) = Some x \<and> dst' ! (d + i) = Some x) \<and>
     (\<forall>j<length dst. j < d \<or> d + n \<le> j \<longrightarrow> dst' ! j = dst ! j)"
proof (induction n arbitrary: s d dst pr)
  case 0
  then show ?case by simp
next
  case (Suc n)
  from Suc.prems obtain x pr1 where
    rng: "s < length src" "d < length dst" and
    x: "src ! s = Some x" and
    rec: "uninitialized_copy_from src (Suc s) n (dst[d := Some x]) result (Suc d) pr1
            = Returns (src', dst', pr') u"
    by (auto split: if_splits option.splits sum.splits outcome.splits)
  note IH = Suc.IH [OF rec]
  have len: "length dst' = length dst" using IH by simp
  have at_d: "dst' ! d = Some x" using IH rng by auto
  have elems: "\<exists>y. src ! (s + i) = Some y \<and> dst' ! (d + i) = Some y" if "i < Suc n" for i
  proof (cases i)
    case 0
    then show ?thesis using x at_d by simp
  next
    case (Suc k)
    then have "k < n" using that by simp
    then show ?thesis using IH Suc by auto
  qed
  have frame: "dst' ! j = dst ! j" if "j < length dst" "j < d \<or> d + Suc n \<le> j" for j
  proof -
    have "dst' ! j = dst[d := Some x] ! j" using IH that by auto
    then show ?thesis using that by auto
  qed
  have bounds: "s + Suc n \<le> length src \<and> d + Suc n \<le> length dst"
    using IH rng by (cases n) auto
  show ?case using IH len elems frame bounds by blast
qed

lemma uninitialized_copy_n_Returns:
  "uninitialized_copy_n src s n dst d pr = Returns (src', dst', pr') u \<Longrightarrow>
     src' = src \<and> length dst' = length dst \<and>
     (0 < n \<longrightarrow> s + n \<le> length src \<and> d + n \<le> length dst) \<and>
     (\<forall>i<n. \<exists>x. src ! (s + i) = Some x \<and> dst' ! (d + i) = Some x) \<and>
     (\<forall>j<length dst. j < d \<or> d + n \<le> j \<longrightarrow> dst' ! j = dst ! j)"
  unfolding uninitialized_copy_n_def by (rule uninitialized_copy_from_Returns)

lemma uninitialized_copy_from_never:
  "countdown pr = None \<Longrightarrow> s + n \<le> length src \<Longrightarrow> d + n \<le> length dst \<Longrightarrow>
   \<forall>i<n. src ! (s + i) \<noteq> None \<Longrightarrow>
   \<exists>st. uninitialized_copy_from src s n dst result d pr = Returns st ()"
proof (induction n arbitrary: s d dst pr)
  case 0
  then show ?case by simp
next
  case (Suc n)
  from Suc.prems(4) obtain x where x: "src ! s = Some x" by force
  have live: "\<forall>i<n. src ! (Suc s + i) \<noteq> None"
    using Suc.prems(4) by (metis Suc_less_eq add_Suc_shift)
  have "\<exists>st. uninitialized_copy_from src (Suc s) n (dst[d := Some x]) result (Suc d)
          (no_throw (CopyCtor x) pr) = Returns st ()"
    using Suc.prems live by (intro Suc.IH) auto
  then show ?case using Suc.prems x by (auto simp: may_throw_never)
qed

lemma uninitialized_copy_n_never:
  "countdown pr = None \<Longrightarrow> s + n \<le> length src \<Longrightarrow> d + n \<le> length dst \<Longrightarrow>
   \<forall>i<n. src ! (s + i) \<noteq> None \<Longrightarrow>
   \<exists>st. uninitialized_copy_n src s n dst d pr = Returns st ()"
  unfolding uninitialized_copy_n_def by (rule uninitialized_copy_from_never)

lemma uninitialized_move_from_Returns:
  "uninitialized_move_from T src s n dst result d pr = Returns (src', dst', pr') u \<Longrightarrow>
     length src' = length src \<and> length dst' = length dst \<and>
     (0 < n \<longrightarrow> s + n \<le> length src \<and> d + n \<le> length dst) \<and>
     (\<forall>i<n. \<exists>x. src ! (s + i) = Some x \<and> dst' ! (d + i) = Some x \<and>
                 src' ! (s + i) = Some (moved_from T x)) \<and>
     (\<forall>j<length src. j < s \<or> s + n \<le> j \<longrightarrow> src' ! j = src ! j) \<and>
     (\<forall>j<length dst. j < d \<or> d + n \<le> j \<longrightarrow> dst' ! j = dst ! j)"
proof (induction n arbitrary: s d src dst pr)
  case 0
  then show ?case by simp
next
  case (Suc n)
  from Suc.prems obtain x pr1 where
    rng: "s < length src" "d < length dst" and
    x: "src ! s = Some x" and
    rec: "uninitialized_move_from T (src[s := Some (moved_from T x)]) (Suc s) n (dst[d := Some x])
            result (Suc d) pr1 = Returns (src', dst', pr') u"
    by (auto split: if_splits option.splits sum.splits outcome.splits)
  note IH = Suc.IH [OF rec]
  have at_d: "dst' ! d = Some x" using IH rng by auto
  have at_s: "src' ! s = Some (moved_from T x)" using IH rng by auto
  have elems: "\<exists>y. src ! (s + i) = Some y \<and> dst' ! (d + i) = Some y \<and> src' ! (s + i) = Some (moved_from T y)"
    if "i < Suc n" for i
  proof (cases i)
    case 0
    then show ?thesis using x at_d at_s by simp
  next
    case (Suc k)
    then have "k < n" using that by simp
    then show ?thesis using IH Suc by auto
  qed
  have frame_d: "dst' ! j = dst ! j" if "j < length dst" "j < d \<or> d + Suc n \<le> j" for j
  proof -
    have "dst' ! j = dst[d := Some x] ! j" using IH that by auto
    then show ?thesis using that by auto
  qed
  have frame_s: "src' ! j = src ! j" if "j < length src" "j < s \<or> s + Suc n \<le> j" for j
  proof -
    have "src' ! j = src[s := Some (moved_from T x)] ! j" using IH that by auto
    then show ?thesis using that by auto
  qed
  have bounds: "s + Suc n \<le> length src \<and> d + Suc n \<le> length dst"
    using IH rng by (cases n) auto
  have "length src' = length src \<and> length dst' = length dst" using IH by simp
  then show ?case using elems frame_d frame_s bounds by blast
qed

lemma uninitialized_move_n_Returns:
  "uninitialized_move_n T src s n dst d pr = Returns (src', dst', pr') u \<Longrightarrow>
     length src' = length src \<and> length dst' = length dst \<and>
     (0 < n \<longrightarrow> s + n \<le> length src \<and> d + n \<le> length dst) \<and>
     (\<forall>i<n. \<exists>x. src ! (s + i) = Some x \<and> dst' ! (d + i) = Some x \<and>
                 src' ! (s + i) = Some (moved_from T x)) \<and>
     (\<forall>j<length src. j < s \<or> s + n \<le> j \<longrightarrow> src' ! j = src ! j) \<and>
     (\<forall>j<length dst. j < d \<or> d + n \<le> j \<longrightarrow> dst' ! j = dst ! j)"
  unfolding uninitialized_move_n_def by (rule uninitialized_move_from_Returns)

lemma uninitialized_move_from_never:
  "countdown pr = None \<Longrightarrow> s + n \<le> length src \<Longrightarrow> d + n \<le> length dst \<Longrightarrow>
   \<forall>i<n. src ! (s + i) \<noteq> None \<Longrightarrow>
   \<exists>st. uninitialized_move_from T src s n dst result d pr = Returns st ()"
proof (induction n arbitrary: s d src dst pr)
  case 0
  then show ?case by simp
next
  case (Suc n)
  from Suc.prems(4) obtain x where x: "src ! s = Some x" by force
  have live: "\<forall>i<n. src[s := Some (moved_from T x)] ! (Suc s + i) \<noteq> None"
    using Suc.prems(4) by (metis Suc_less_eq add_Suc_shift nth_list_update_neq not_add_less1 less_Suc_eq_le Suc_n_not_le_n le_add1)
  have "\<exists>st. uninitialized_move_from T (src[s := Some (moved_from T x)]) (Suc s) n (dst[d := Some x])
           result (Suc d) (no_throw (MoveCtor x) pr) = Returns st ()"
    using Suc.prems live by (intro Suc.IH) auto
  then show ?case using Suc.prems x by (auto simp: move_construct_never)
qed

lemma uninitialized_move_n_never:
  "countdown pr = None \<Longrightarrow> s + n \<le> length src \<Longrightarrow> d + n \<le> length dst \<Longrightarrow>
   \<forall>i<n. src ! (s + i) \<noteq> None \<Longrightarrow>
   \<exists>st. uninitialized_move_n T src s n dst d pr = Returns st ()"
  unfolding uninitialized_move_n_def by (rule uninitialized_move_from_never)

subsection \<open>Swapping through references\<close>

lemma Swap_at_distinct:
  "this \<noteq> other \<Longrightarrow> Swap_at this other s = s(this := s other, other := s this)"
  by (auto simp: Swap_at_def RawMemory_Swap_def Let_def fun_eq_iff)

lemma Swap_at_self: "Swap_at this this s = s"
  by (auto simp: Swap_at_def RawMemory_Swap_def Let_def fun_eq_iff)

subsection \<open>Size and capacity after an insertion\<close>

lemma Emplace_realloc_size_capacity:
  "Emplace_realloc T v np a pr = Returns (v', pr') r \<Longrightarrow>
     m_size v' = m_size v + 1 \<and>
     m_capacity (m_data v') = (if m_size v = 0 then 1 else m_size v * 2)"
  unfolding Emplace_realloc_def Let_def
  by (auto simp: RawMemory_Swap_def RawMemory_new_def
      split: if_splits sum.splits outcome.splits prod.splits option.splits)

lemma Emplace_shift_size_capacity:
  "Emplace_shift T v np a pr = Returns (v', pr') r \<Longrightarrow>
     m_size v' = m_size v + 1 \<and> m_capacity (m_data v') = m_capacity (m_data v)"
  unfolding Emplace_shift_def Let_def
  by (auto simp: with_buffer_def
      split: if_splits sum.splits outcome.splits prod.splits option.splits)

lemma Emplace_end_size_capacity:
  "Emplace_end T v np a pr = Returns (v', pr') r \<Longrightarrow>
     m_size v' = m_size v + 1 \<and> m_capacity (m_data v') = m_capacity (m_data v)"
  unfolding Emplace_end_def Let_def
  by (auto simp: with_buffer_def
      split: if_splits sum.splits outcome.splits prod.splits option.splits)

lemma Emplace_size_capacity:
  "Emplace T v pos a pr = Returns (v', pr') r \<Longrightarrow>
     Size v' = Size v + 1 \<and>
     Capacity v' = (if Size v \<ge> Capacity v then (if Size v = 0 then 1 else Size v * 2)
                    else Capacity v)"
  unfolding Emplace_def Let_def Size_def Capacity_def
  by (auto split: if_splits dest: Emplace_realloc_size_capacity Emplace_shift_size_capacity
      Emplace_end_size_capacity)

lemma PushBack_size_capacity:
  "PushBack T v a pr = Returns (v', pr') u \<Longrightarrow>
     Size v' = Size v + 1 \<and>
     Capacity v' = (if Size v \<ge> Capacity v then (if Size v = 0 then 1 else Size v * 2)
                    else Capacity v)"
  unfolding PushBack_def EmplaceBack_def
  by (auto split: outcome.splits if_splits prod.splits dest: Emplace_size_capacity)

lemma PushBack_doubled:
  assumes "PushBack T v a pr = Returns (v', pr') u"
    and "(Size v = 0 \<and> Capacity v = 0) \<or>
         (\<exists>k. Capacity v = 2 ^ k \<and> Size v \<le> Capacity v \<and> Capacity v < 2 * Size v)"
  shows "\<exists>k. Capacity v' = 2 ^ k \<and> Size v' \<le> Capacity v' \<and> Capacity v' < 2 * Size v'"
proof -
  note sc = PushBack_size_capacity [OF assms(1)]
  from assms(2) consider
      (empty) "Size v = 0" "Capacity v = 0"
    | (pow) k where "Capacity v = 2 ^ k" "Size v \<le> Capacity v" "Capacity v < 2 * Size v"
    by auto
  then show ?thesis
  proof cases
    case empty
    then have "Capacity v' = 2 ^ 0" "Size v' = 1" using sc by auto
    then have "Capacity v' = 2 ^ 0 \<and> Size v' \<le> Capacity v' \<and> Capacity v' < 2 * Size v'"
      by simp
    then show ?thesis by (rule exI)
  next
    case pow
    show ?thesis
    proof (cases "Size v \<ge> Capacity v")
      case True
      then have eq: "Size v = 2 ^ k" using pow by simp
      then have "Capacity v' = 2 ^ Suc k" "Size v' = 2 ^ k + 1" using sc True by auto
      then have "Capacity v' = 2 ^ Suc k \<and> Size v' \<le> Capacity v' \<and> Capacity v' < 2 * Size v'"
        by simp
      then show ?thesis by (rule exI)
    next
      case False
      then have "Capacity v' = 2 ^ k" "Size v' = Size v + 1" using sc pow by auto
      then have "Capacity v' = 2 ^ k \<and> Size v' \<le> Capacity v' \<and> Capacity v' < 2 * Size v'"
        using pow False by auto
      then show ?thesis by (rule exI)
    qed
  qed
qed

lemma PushBack_all_doubled:
  "PushBack_all T v as pr = Returns (v', pr') u \<Longrightarrow>
   (Size v = 0 \<and> Capacity v = 0) \<or>
     (\<exists>k. Capacity v = 2 ^ k \<and> Size v \<le> Capacity v \<and> Capacity v < 2 * Size v) \<Longrightarrow>
   Size v' = Size v + length as \<and>
   ((Size v' = 0 \<and> Capacity v' = 0) \<or>
     (\<exists>k. Capacity v' = 2 ^ k \<and> Size v' \<le> Capacity v' \<and> Capacity v' < 2 * Size v'))"
proof (induction as arbitrary: v pr)
  case Nil
  then show ?case by simp
next
  case (Cons a as)
  from Cons.prems(1) obtain v1 pr1 where
    step: "PushBack T v a pr = Returns (v1, pr1) ()" and
    rest: "PushBack_all T v1 as pr1 = Returns (v', pr') u"
    by (auto split: outcome.splits)
  have "\<exists>k. Capacity v1 = 2 ^ k \<and> Size v1 \<le> Capacity v1 \<and> Capacity v1 < 2 * Size v1"
    using PushBack_doubled [OF step Cons.prems(2)] .
  moreover have "Size v1 = Size v + 1" using PushBack_size_capacity [OF step] by simp
  ultimately show ?case using Cons.IH [OF rest] by auto
qed

subsection \<open>Destruction and relocation\<close>

lemma destroy_n_Some:
  "destroy_n buf s n pr = Some (buf', pr') \<Longrightarrow>
     length buf' = length buf \<and>
     (0 < n \<longrightarrow> s + n \<le> length buf) \<and>
     (\<forall>i<n. buf ! (s + i) \<noteq> None \<and> buf' ! (s + i) = None) \<and>
     (\<forall>j<length buf. j < s \<or> s + n \<le> j \<longrightarrow> buf' ! j = buf ! j) \<and>
     countdown pr' = countdown pr \<and>
     trace pr' = trace pr @ map (\<lambda>c. Dtor (the c)) (take n (drop s buf))"
proof (induction n arbitrary: s buf pr)
  case 0
  then show ?case by simp
next
  case (Suc n)
  from Suc.prems obtain x where
    rng: "s < length buf" and
    x: "buf ! s = Some x" and
    rec: "destroy_n (buf[s := None]) (Suc s) n (no_throw (Dtor x) pr) = Some (buf', pr')"
    by (auto split: if_splits option.splits)
  note IH = Suc.IH [OF rec]
  have at_s: "buf' ! s = None" using IH rng by auto
  have elems: "buf ! (s + i) \<noteq> None \<and> buf' ! (s + i) = None" if "i < Suc n" for i
  proof (cases i)
    case 0
    then show ?thesis using x at_s by simp
  next
    case (Suc k)
    then have k: "k < n" using that by simp
    then have "0 < n" by simp
    then have "Suc s + n \<le> length buf" using IH by simp
    then have "buf[s := None] ! (Suc s + k) = buf ! (Suc s + k)" using k by simp
    then show ?thesis using IH k Suc by auto
  qed
  have frame: "buf' ! j = buf ! j" if "j < length buf" "j < s \<or> s + Suc n \<le> j" for j
  proof -
    have "buf' ! j = buf[s := None] ! j" using IH that by auto
    then show ?thesis using that by auto
  qed
  have bounds: "s + Suc n \<le> length buf"
    using IH rng by (cases n) auto
  have "take (Suc n) (drop s buf) = Some x # take n (drop (Suc s) buf)"
    using rng x by (simp add: Cons_nth_drop_Suc [symmetric])
  moreover have "drop (Suc s) (buf[s := None]) = drop (Suc s) buf"
    by simp
  ultimately have tr: "trace pr' = trace pr @ map (\<lambda>c. Dtor (the c)) (take (Suc n) (drop s buf))"
    using IH by simp
  have "length buf' = length buf \<and> countdown pr' = countdown pr" using IH by simp
  then show ?case using elems frame bounds tr by blast
qed

lemma destroy_n_live:
  "s + n \<le> length buf \<Longrightarrow> \<forall>i<n. buf ! (s + i) \<noteq> None \<Longrightarrow> \<exists>st. destroy_n buf s n pr = Some st"
proof (induction n arbitrary: s buf pr)
  case 0
  then show ?case by simp
next
  case (Suc n)
  from Suc.prems(2) obtain x where x: "buf ! s = Some x" by force
  have "\<forall>i<n. buf[s := None] ! (Suc s + i) \<noteq> None"
  proof (intro allI impI)
    fix i assume "i < n"
    then have "buf ! (s + Suc i) \<noteq> None" using Suc.prems(2) by blast
    then show "buf[s := None] ! (Suc s + i) \<noteq> None" by simp
  qed
  then have "\<exists>st. destroy_n (buf[s := None]) (Suc s) n (no_throw (Dtor x) pr) = Some st"
    using Suc.prems by (intro Suc.IH) auto
  then show ?case using Suc.prems x by auto
qed

lemma CopyOrMoveElements_Returns:
  assumes "CopyOrMoveElements T old s new d n pr = Returns (om, nm, pr') u"
  shows "length om = length old \<and> length nm = length new \<and>
     (0 < n \<longrightarrow> s + n \<le> length old \<and> d + n \<le> length new) \<and>
     (\<forall>i<n. \<exists>x. old ! (s + i) = Some x \<and> nm ! (d + i) = Some x \<and> om ! (s + i) = None) \<and>
     (\<forall>j<length old. j < s \<or> s + n \<le> j \<longrightarrow> om ! j = old ! j) \<and>
     (\<forall>j<length new. j < d \<or> d + n \<le> j \<longrightarrow> nm ! j = new ! j)"
proof (cases "nothrow_move_constructible T \<or> \<not> copy_constructible T")
  case True
  with assms obtain src' pr1 where
    mv: "uninitialized_move_n T old s n new d pr = Returns (src', nm, pr1) ()" and
    ds: "destroy_n src' s n pr1 = Some (om, pr')"
    by (auto simp: CopyOrMoveElements_def split: outcome.splits option.splits)
  note M = uninitialized_move_n_Returns [OF mv]
  note D = destroy_n_Some [OF ds]
  have "\<exists>x. old ! (s + i) = Some x \<and> nm ! (d + i) = Some x \<and> om ! (s + i) = None" if "i < n" for i
    using M D that by blast
  moreover have "om ! j = old ! j" if "j < length old" "j < s \<or> s + n \<le> j" for j
    using M D that by auto
  ultimately show ?thesis using M D by auto
next
  case False
  with assms obtain src' pr1 where
    cp0: "uninitialized_copy_n old s n new d pr = Returns (src', nm, pr1) ()" and
    ds0: "destroy_n src' s n pr1 = Some (om, pr')"
    by (auto simp: CopyOrMoveElements_def split: outcome.splits option.splits)
  have "src' = old" using uninitialized_copy_n_Returns [OF cp0] by simp
  with cp0 ds0 have
    cp: "uninitialized_copy_n old s n new d pr = Returns (old, nm, pr1) ()" and
    ds: "destroy_n old s n pr1 = Some (om, pr')"
    by simp_all
  note C = uninitialized_copy_n_Returns [OF cp]
  note D = destroy_n_Some [OF ds]
  have "\<exists>x. old ! (s + i) = Some x \<and> nm ! (d + i) = Some x \<and> om ! (s + i) = None" if "i < n" for i
    using C D that by blast
  then show ?thesis using C D by auto
qed

lemma uninitialized_copy_from_countdown:
  "uninitialized_copy_from src s n dst result d pr = Returns (src', dst', pr') u \<Longrightarrow>
   countdown pr = None \<Longrightarrow> countdown pr' = None"
proof (induction n arbitrary: s d dst pr)
  case 0
  then show ?case by simp
next
  case (Suc n)
  from Suc.prems obtain x where
    rec: "uninitialized_copy_from src (Suc s) n (dst[d := Some x]) result (Suc d)
            (no_throw (CopyCtor x) pr) = Returns (src', dst', pr') u"
    by (auto simp: may_throw_never split: if_splits option.splits outcome.splits)
  show ?case using Suc.IH [OF rec] Suc.prems(2) by simp
qed

lemma uninitialized_copy_n_countdown:
  "uninitialized_copy_n src s n dst d pr = Returns (src', dst', pr') u \<Longrightarrow>
   countdown pr = None \<Longrightarrow> countdown pr' = None"
  unfolding uninitialized_copy_n_def by (rule uninitialized_copy_from_countdown)

lemma uninitialized_move_from_countdown:
  "uninitialized_move_from T src s n dst result d pr = Returns (src', dst', pr') u \<Longrightarrow>
   countdown pr = None \<Longrightarrow> countdown pr' = None"
proof (induction n arbitrary: s d src dst pr)
  case 0
  then show ?case by simp
next
  case (Suc n)
  from Suc.prems obtain x where
    rec: "uninitialized_move_from T (src[s := Some (moved_from T x)]) (Suc s) n (dst[d := Some x])
            result (Suc d) (no_throw (MoveCtor x) pr) = Returns (src', dst', pr') u"
    by (auto simp: move_construct_never split: if_splits option.splits outcome.splits)
  show ?case using Suc.IH [OF rec] Suc.prems(2) by simp
qed

lemma uninitialized_move_n_countdown:
  "uninitialized_move_n T src s n dst d pr = Returns (src', dst', pr') u \<Longrightarrow>
   countdown pr = None \<Longrightarrow> countdown pr' = None"
  unfolding uninitialized_move_n_def by (rule uninitialized_move_from_countdown)

lemma CopyOrMoveElements_never:
  assumes "countdown pr = None" "s + n \<le> length old" "d + n \<le> length new"
    "\<forall>i<n. old ! (s + i) \<noteq> None"
  shows "\<exists>om nm pr'. CopyOrMoveElements T old s new d n pr = Returns (om, nm, pr') () \<and>
           countdown pr' = None"
proof (cases "nothrow_move_constructible T \<or> \<not> copy_constructible T")
  case True
  from uninitialized_move_n_never [OF assms, of T] obtain src' nm pr1 where
    mv: "uninitialized_move_n T old s n new d pr = Returns (src', nm, pr1) ()"
    by (metis prod_cases3)
  note M = uninitialized_move_n_Returns [OF mv]
  have c1: "countdown pr1 = None" using uninitialized_move_n_countdown [OF mv assms(1)] .
  have "\<forall>i<n. src' ! (s + i) \<noteq> None" using M by force
  moreover have "s + n \<le> length src'" using M assms(2) by simp
  ultimately obtain om pr' where ds: "destroy_n src' s n pr1 = Some (om, pr')"
    using destroy_n_live by (metis surj_pair)
  have "countdown pr' = None" using destroy_n_Some [OF ds] c1 by simp
  then show ?thesis using True mv ds by (simp add: CopyOrMoveElements_def)
next
  case False
  from uninitialized_copy_n_never [OF assms] obtain src' nm pr1 where
    cp: "uninitialized_copy_n old s n new d pr = Returns (src', nm, pr1) ()"
    by (metis prod_cases3)
  note C = uninitialized_copy_n_Returns [OF cp]
  have c1: "countdown pr1 = None" using uninitialized_copy_n_countdown [OF cp assms(1)] .
  have "\<forall>i<n. src' ! (s + i) \<noteq> None" using C assms(4) by simp
  moreover have "s + n \<le> length src'" using C assms(2) by simp
  ultimately obtain om pr' where ds: "destroy_n src' s n pr1 = Some (om, pr')"
    using destroy_n_live by (metis surj_pair)
  have "countdown pr' = None" using destroy_n_Some [OF ds] c1 by simp
  then show ?thesis using False cp ds by (simp add: CopyOrMoveElements_def)
qed

lemma VectorInv_iff:
  "VectorInv v \<longleftrightarrow>
     length (m_buffer (m_data v)) = m_capacity (m_data v) \<and>
     m_size v \<le> m_capacity (m_data v) \<and>
     (\<forall>i<m_size v. m_buffer (m_data v) ! i \<noteq> None) \<and>
     (\<forall>i<m_capacity (m_data v). m_size v \<le> i \<longrightarrow> m_buffer (m_data v) ! i = None)"
proof -
  let ?b = "m_buffer (m_data v)"
  have "list_all (\<lambda>c. c \<noteq> None) (take (m_size v) ?b) \<longleftrightarrow> (\<forall>i<m_size v. ?b ! i \<noteq> None)"
    if "m_size v \<le> length ?b"
    using that by (simp add: list_all_length min_absorb2)
  moreover have "list_all (\<lambda>c. c = None) (drop (m_size v) ?b) \<longleftrightarrow>
      (\<forall>i<length ?b. m_size v \<le> i \<longrightarrow> ?b ! i = None)"
    if "m_size v \<le> length ?b"
  proof
    assume L: "list_all (\<lambda>c. c = None) (drop (m_size v) ?b)"
    show "\<forall>i<length ?b. m_size v \<le> i \<longrightarrow> ?b ! i = None"
    proof (intro allI impI)
      fix i assume i: "i < length ?b" "m_size v \<le> i"
      then have "i - m_size v < length (drop (m_size v) ?b)" by simp
      then have "drop (m_size v) ?b ! (i - m_size v) = None"
        using L unfolding list_all_length by blast
      then show "?b ! i = None" using i by simp
    qed
  next
    assume R: "\<forall>i<length ?b. m_size v \<le> i \<longrightarrow> ?b ! i = None"
    show "list_all (\<lambda>c. c = None) (drop (m_size v) ?b)"
      using R by (simp add: list_all_length)
  qed
  ultimately show ?thesis unfolding VectorInv_def by auto
qed

lemma length_elements:
  "m_size v \<le> length (m_buffer (m_data v)) \<Longrightarrow> length (elements v) = m_size v"
  by (simp add: elements_def)

lemma elements_nth:
  "i < m_size v \<Longrightarrow> m_size v \<le> length (m_buffer (m_data v)) \<Longrightarrow>
   elements v ! i = the (m_buffer (m_data v) ! i)"
  by (simp add: elements_def)

lemma at_nth:
  "i < length (m_buffer (m_data v)) \<Longrightarrow> at v i = m_buffer (m_data v) ! i"
  by (simp add: at_def)

subsection \<open>Reserve\<close>

lemma Reserve_Returns:
  assumes "Reserve T v n pr = Returns (v', pr') u" "m_capacity (m_data v) < n" "fits T n"
  shows "m_capacity (m_data v') = n \<and> m_size v' = m_size v \<and>
         length (m_buffer (m_data v')) = n \<and>
         (0 < m_size v \<longrightarrow> m_size v \<le> length (m_buffer (m_data v)) \<and> m_size v \<le> n) \<and>
         (\<forall>i<m_size v. \<exists>x. m_buffer (m_data v) ! i = Some x \<and> m_buffer (m_data v') ! i = Some x) \<and>
         (\<forall>j<n. m_size v \<le> j \<longrightarrow> m_buffer (m_data v') ! j = None)"
proof -
  from assms obtain om nm where
    rel: "CopyOrMoveElements T (m_buffer (m_data v)) 0 (replicate n None) 0 (m_size v) pr
            = Returns (om, nm, pr') ()" and
    v': "v' = v\<lparr>m_data := \<lparr>m_buffer = nm, m_capacity = n\<rparr>\<rparr>"
    by (auto simp: Reserve_def RawMemory_new_fits RawMemory_Swap_def
        split: outcome.splits prod.splits)
  note R = CopyOrMoveElements_Returns [OF rel]
  have "\<exists>x. m_buffer (m_data v) ! i = Some x \<and> nm ! i = Some x" if "i < m_size v" for i
    using R that by force
  moreover have "nm ! j = None" if "j < n" "m_size v \<le> j" for j
    using R that by simp
  ultimately show ?thesis using R v' by simp
qed

lemma Reserve_never:
  assumes "VectorInv v" "countdown pr = None" "fits T n"
  shows "\<exists>v' pr'. Reserve T v n pr = Returns (v', pr') () \<and> countdown pr' = None"
proof (cases "n \<le> m_capacity (m_data v)")
  case True
  then show ?thesis using assms(2) by (simp add: Reserve_def)
next
  case False
  have inv: "length (m_buffer (m_data v)) = m_capacity (m_data v)"
    "m_size v \<le> m_capacity (m_data v)" "\<forall>i<m_size v. m_buffer (m_data v) ! i \<noteq> None"
    using assms(1) by (simp_all add: VectorInv_iff)
  have "\<exists>om nm pr'. CopyOrMoveElements T (m_buffer (m_data v)) 0 (replicate n None) 0 (m_size v) pr
          = Returns (om, nm, pr') () \<and> countdown pr' = None"
    using inv False assms(2) by (intro CopyOrMoveElements_never) auto
  then show ?thesis using False assms(3)
    by (auto simp: Reserve_def RawMemory_new_fits)
qed

lemma elements_eqI:
  assumes "m_size v' = m_size v" "m_size v \<le> length (m_buffer (m_data v))"
    "m_size v \<le> length (m_buffer (m_data v'))"
    "\<forall>i<m_size v. m_buffer (m_data v') ! i = m_buffer (m_data v) ! i"
  shows "elements v' = elements v"
  using assms by (intro nth_equalityI) (simp_all add: elements_def)

lemma Reserve_grows:
  assumes "VectorInv v" "m_capacity (m_data v) < n" "Reserve T v n pr = Returns (v', pr') u"
    "fits T n"
  shows "m_capacity (m_data v') = n \<and> m_size v' = m_size v \<and> elements v' = elements v \<and>
         (\<forall>i<m_size v. at v' i = at v i) \<and> VectorInv v'"
proof -
  have inv: "length (m_buffer (m_data v)) = m_capacity (m_data v)"
    "m_size v \<le> m_capacity (m_data v)"
    using assms(1) by (simp_all add: VectorInv_iff)
  note R = Reserve_Returns [OF assms(3,2,4)]
  have same: "m_buffer (m_data v') ! i = m_buffer (m_data v) ! i" if "i < m_size v" for i
    using R that by force
  have el: "elements v' = elements v"
    using R inv assms(2) same by (intro elements_eqI) auto
  have at_eq: "at v' i = at v i" if "i < m_size v" for i
    using that same inv assms(2) R by (simp add: at_def)
  have "VectorInv v'"
    unfolding VectorInv_iff using R inv assms(2) by force
  then show ?thesis using R el at_eq by simp
qed

lemma Reserve_VectorInv:
  assumes "VectorInv v" "Reserve T v n pr = Returns (v', pr') u" "fits T n"
  shows "VectorInv v'"
proof (cases "n \<le> m_capacity (m_data v)")
  case True
  then have "v' = v" using assms(2) by (simp add: Reserve_def)
  then show ?thesis using assms(1) by simp
next
  case False
  then show ?thesis using Reserve_grows [OF assms(1) _ assms(2,3)] by simp
qed

subsection \<open>Resize\<close>

lemma uninitialized_value_construct_from_Returns:
  "uninitialized_value_construct_from T buf result s n pr = Returns (buf', pr') u \<Longrightarrow>
     length buf' = length buf \<and>
     (0 < n \<longrightarrow> s + n \<le> length buf) \<and>
     (\<forall>i<n. buf' ! (s + i) = Some (value_initialized T)) \<and>
     (\<forall>j<length buf. j < s \<or> s + n \<le> j \<longrightarrow> buf' ! j = buf ! j)"
proof (induction n arbitrary: s buf pr)
  case 0
  then show ?case by simp
next
  case (Suc n)
  from Suc.prems obtain pr1 where
    rng: "s < length buf" and
    rec: "uninitialized_value_construct_from T (buf[s := Some (value_initialized T)]) result (Suc s) n pr1
            = Returns (buf', pr') u"
    by (auto split: if_splits sum.splits outcome.splits option.splits)
  note IH = Suc.IH [OF rec]
  have at_s: "buf' ! s = Some (value_initialized T)" using IH rng by auto
  have elems: "buf' ! (s + i) = Some (value_initialized T)" if "i < Suc n" for i
  proof (cases i)
    case 0
    then show ?thesis using at_s by simp
  next
    case (Suc k)
    then have "k < n" using that by simp
    then show ?thesis using IH Suc by auto
  qed
  have frame: "buf' ! j = buf ! j" if "j < length buf" "j < s \<or> s + Suc n \<le> j" for j
  proof -
    have "buf' ! j = buf[s := Some (value_initialized T)] ! j" using IH that by auto
    then show ?thesis using that by auto
  qed
  have bounds: "s + Suc n \<le> length buf"
    using IH rng by (cases n) auto
  have "length buf' = length buf" using IH by simp
  then show ?case using elems frame bounds by blast
qed

lemma uninitialized_value_construct_n_Returns:
  "uninitialized_value_construct_n T buf s n pr = Returns (buf', pr') u \<Longrightarrow>
     length buf' = length buf \<and>
     (0 < n \<longrightarrow> s + n \<le> length buf) \<and>
     (\<forall>i<n. buf' ! (s + i) = Some (value_initialized T)) \<and>
     (\<forall>j<length buf. j < s \<or> s + n \<le> j \<longrightarrow> buf' ! j = buf ! j)"
  unfolding uninitialized_value_construct_n_def by (rule uninitialized_value_construct_from_Returns)

lemma uninitialized_value_construct_from_never:
  "countdown pr = None \<Longrightarrow> s + n \<le> length buf \<Longrightarrow>
   \<exists>buf' pr'. uninitialized_value_construct_from T buf result s n pr = Returns (buf', pr') () \<and>
      countdown pr' = None"
proof (induction n arbitrary: s buf pr)
  case 0
  then show ?case by simp
next
  case (Suc n)
  have "\<exists>buf' pr'. uninitialized_value_construct_from T (buf[s := Some (value_initialized T)]) result
           (Suc s) n (no_throw (ValueCtor (value_initialized T)) pr) = Returns (buf', pr') () \<and>
           countdown pr' = None"
    using Suc.prems by (intro Suc.IH) auto
  then show ?case using Suc.prems by (auto simp: may_throw_never)
qed

lemma uninitialized_value_construct_n_never:
  "countdown pr = None \<Longrightarrow> s + n \<le> length buf \<Longrightarrow>
   \<exists>buf' pr'. uninitialized_value_construct_n T buf s n pr = Returns (buf', pr') () \<and>
      countdown pr' = None"
  unfolding uninitialized_value_construct_n_def by (rule uninitialized_value_construct_from_never)

lemma elements_with_buffer:
  "m_size ((with_buffer v buf)\<lparr>m_size := k\<rparr>) = k"
  "m_buffer (m_data ((with_buffer v buf)\<lparr>m_size := k\<rparr>)) = buf"
  "m_capacity (m_data ((with_buffer v buf)\<lparr>m_size := k\<rparr>)) = m_capacity (m_data v)"
  "m_size (with_buffer v buf) = m_size v"
  "m_buffer (m_data (with_buffer v buf)) = buf"
  "m_capacity (m_data (with_buffer v buf)) = m_capacity (m_data v)"
  by (simp_all add: with_buffer_def)

lemma Resize_shrink:
  assumes "VectorInv v" "n < m_size v" "Resize T v n pr = Returns (v', pr') ()"
  shows "m_size v' = n \<and> VectorInv v' \<and> m_capacity (m_data v') = m_capacity (m_data v) \<and>
         elements v' = take n (elements v) \<and>
         trace pr' = trace pr @ map Dtor (drop n (elements v))"
proof -
  let ?b = "m_buffer (m_data v)"
  have inv: "length ?b = m_capacity (m_data v)" "m_size v \<le> m_capacity (m_data v)"
    "\<forall>i<m_size v. ?b ! i \<noteq> None"
    "\<forall>i<m_capacity (m_data v). m_size v \<le> i \<longrightarrow> ?b ! i = None"
    using assms(1) by (simp_all add: VectorInv_iff)
  from assms(2,3) obtain buf where
    ds: "destroy_n ?b n (m_size v - n) pr = Some (buf, pr')" and
    v': "v' = (with_buffer v buf)\<lparr>m_size := n\<rparr>"
    by (auto simp: Resize_def split: option.splits)
  note D = destroy_n_Some [OF ds]
  have len: "length buf = length ?b" using D by simp
  have low: "buf ! i = ?b ! i" if "i < n" for i
    using D that inv assms(2) by simp
  have raw: "buf ! i = None" if "n \<le> i" "i < length ?b" for i
  proof (cases "i < m_size v")
    case True
    then have "i - n < m_size v - n" using that by simp
    then have "buf ! (n + (i - n)) = None" using D by blast
    then show ?thesis using that by simp
  next
    case False
    then have "buf ! i = ?b ! i" using D that by simp
    then show ?thesis using False inv that by simp
  qed
  have I: "VectorInv v'"
    unfolding VectorInv_iff v' elements_with_buffer
    using len inv assms(2) low raw by auto
  have el: "elements v' = take n (elements v)"
  proof (rule nth_equalityI)
    show "length (elements v') = length (take n (elements v))"
      using v' len inv assms(2) by (simp add: elements_def with_buffer_def)
  next
    fix i assume "i < length (elements v')"
    then have i: "i < n" using v' len inv assms(2) by (simp add: elements_def with_buffer_def)
    then show "elements v' ! i = take n (elements v) ! i"
      using v' len inv assms(2) low by (simp add: elements_def with_buffer_def)
  qed
  have "map (\<lambda>c. Dtor (the c)) (take (m_size v - n) (drop n ?b)) = map Dtor (drop n (elements v))"
    by (simp add: elements_def drop_map drop_take)
  then have tr: "trace pr' = trace pr @ map Dtor (drop n (elements v))"
    using D by simp
  show ?thesis using I el tr v' by (simp add: with_buffer_def)
qed

lemma Resize_grow:
  assumes "VectorInv v" "m_size v \<le> n" "Resize T v n pr = Returns (v', pr') ()" "fits T n"
  shows "m_size v' = n \<and> VectorInv v' \<and>
         elements v' = elements v @ replicate (n - m_size v) (value_initialized T)"
proof -
  let ?b = "m_buffer (m_data v)"
  have inv: "length ?b = m_capacity (m_data v)" "m_size v \<le> m_capacity (m_data v)"
    "\<forall>i<m_size v. ?b ! i \<noteq> None"
    "\<forall>i<m_capacity (m_data v). m_size v \<le> i \<longrightarrow> ?b ! i = None"
    using assms(1) by (simp_all add: VectorInv_iff)
  from assms(2,3) obtain v1 pr1 buf where
    rs: "Reserve T v n pr = Returns (v1, pr1) ()" and
    vc: "uninitialized_value_construct_n T (m_buffer (m_data v1)) (m_size v1) (n - m_size v1) pr1
           = Returns (buf, pr') ()" and
    v': "v' = (with_buffer v1 buf)\<lparr>m_size := n\<rparr>"
    by (auto simp: Resize_def split: outcome.splits prod.splits)
  let ?b1 = "m_buffer (m_data v1)"
  have v1: "m_size v1 = m_size v \<and> length ?b1 = m_capacity (m_data v1) \<and> n \<le> length ?b1 \<and>
            (\<forall>i<m_size v. ?b1 ! i = ?b ! i)"
  proof (cases "n \<le> m_capacity (m_data v)")
    case True
    then have "v1 = v" using rs by (simp add: Reserve_def)
    then show ?thesis using inv True by simp
  next
    case False
    then have lt: "m_capacity (m_data v) < n" by simp
    note R = Reserve_Returns [OF rs lt assms(4)]
    have "?b1 ! i = ?b ! i" if "i < m_size v" for i using R that by force
    then show ?thesis using R by simp
  qed
  note V = uninitialized_value_construct_n_Returns [OF vc]
  have len: "length buf = length ?b1" using V by simp
  have low: "buf ! i = ?b ! i" if "i < m_size v" for i
    using V v1 that assms(2) by simp
  have new: "buf ! i = Some (value_initialized T)" if "m_size v \<le> i" "i < n" for i
  proof -
    have "i - m_size v < n - m_size v1" using that v1 by simp
    then have "buf ! (m_size v1 + (i - m_size v)) = Some (value_initialized T)" using V by blast
    then show ?thesis using that v1 by simp
  qed
  have raw: "buf ! i = None" if "n \<le> i" "i < length ?b1" for i
  proof -
    have b1: "buf ! i = ?b1 ! i" using V that v1 assms(2) by simp
    show ?thesis
    proof (cases "n \<le> m_capacity (m_data v)")
      case True
      then have "v1 = v" using rs by (simp add: Reserve_def)
      then show ?thesis using b1 inv that assms(2) by simp
    next
      case False
      then have lt: "m_capacity (m_data v) < n" by simp
      note R = Reserve_Returns [OF rs lt assms(4)]
      show ?thesis using R that by simp
    qed
  qed
  have I: "VectorInv v'"
    unfolding VectorInv_iff v' elements_with_buffer
  proof (intro conjI allI impI)
    show "length buf = m_capacity (m_data v1)" using len v1 by simp
    show "n \<le> m_capacity (m_data v1)" using v1 by simp
    show "buf ! i \<noteq> None" if "i < n" for i
      using low [of i] new [of i] inv that by (cases "i < m_size v") auto
    show "buf ! i = None" if "i < m_capacity (m_data v1)" "n \<le> i" for i
      using raw that v1 by simp
  qed
  have el: "elements v' = elements v @ replicate (n - m_size v) (value_initialized T)"
  proof (rule nth_equalityI)
    show "length (elements v') = length (elements v @ replicate (n - m_size v) (value_initialized T))"
      using v' len v1 inv assms(2) by (simp add: elements_def with_buffer_def)
  next
    fix i assume "i < length (elements v')"
    then have i: "i < n" using v' len v1 by (simp add: elements_def with_buffer_def)
    show "elements v' ! i = (elements v @ replicate (n - m_size v) (value_initialized T)) ! i"
    proof (cases "i < m_size v")
      case True
      then show ?thesis
        using v' len v1 inv i low by (simp add: elements_def with_buffer_def nth_append)
    next
      case False
      then show ?thesis
        using v' len v1 inv i new [of i] by (simp add: elements_def with_buffer_def nth_append)
    qed
  qed
  show ?thesis using I el v' by (simp add: with_buffer_def)
qed

lemma Resize_same:
  "m_size v = n \<Longrightarrow> m_size v \<le> m_capacity (m_data v) \<Longrightarrow>
   Resize T v n pr = Returns (v, pr) ()"
  by (simp add: Resize_def Reserve_def with_buffer_def)

lemma Resize_never:
  assumes "VectorInv v" "countdown pr = None" "fits T n"
  shows "\<exists>v' pr'. Resize T v n pr = Returns (v', pr') ()"
proof (cases "n < m_size v")
  case True
  have inv: "length (m_buffer (m_data v)) = m_capacity (m_data v)"
    "m_size v \<le> m_capacity (m_data v)" "\<forall>i<m_size v. m_buffer (m_data v) ! i \<noteq> None"
    using assms(1) by (simp_all add: VectorInv_iff)
  have "\<exists>st. destroy_n (m_buffer (m_data v)) n (m_size v - n) pr = Some st"
    using inv True by (intro destroy_n_live) auto
  then show ?thesis using True by (auto simp: Resize_def)
next
  case False
  from Reserve_never [OF assms] obtain v1 pr1 where
    rs: "Reserve T v n pr = Returns (v1, pr1) ()" and c1: "countdown pr1 = None"
    by blast
  have inv: "length (m_buffer (m_data v)) = m_capacity (m_data v)"
    "m_size v \<le> m_capacity (m_data v)"
    using assms(1) by (simp_all add: VectorInv_iff)
  have "m_size v1 = m_size v \<and> n \<le> length (m_buffer (m_data v1))"
  proof (cases "n \<le> m_capacity (m_data v)")
    case True
    then have "v1 = v" using rs by (simp add: Reserve_def)
    then show ?thesis using inv True by simp
  next
    case F: False
    then have lt: "m_capacity (m_data v) < n" by simp
    show ?thesis using Reserve_Returns [OF rs lt assms(3)] by simp
  qed
  then have "\<exists>buf' pr'. uninitialized_value_construct_n T (m_buffer (m_data v1)) (m_size v1)
        (n - m_size v1) pr1 = Returns (buf', pr') () \<and> countdown pr' = None"
    using c1 False by (intro uninitialized_value_construct_n_never) auto
  then show ?thesis using False rs by (auto simp: Resize_def)
qed

lemma Resize_VectorInv:
  assumes "VectorInv v" "Resize T v n pr = Returns (v', pr') ()" "fits T n"
  shows "VectorInv v'"
  using Resize_shrink [OF assms(1) _ assms(2)] Resize_grow [OF assms(1) _ assms(2,3)]
  by (cases "n < m_size v") simp_all

subsection \<open>Copy construction and copy assignment\<close>

lemma copy_n_Returns:
  "copy_n src s n dst d pr = Returns (dst', pr') u \<Longrightarrow>
     length dst' = length dst \<and>
     (0 < n \<longrightarrow> s + n \<le> length src \<and> d + n \<le> length dst) \<and>
     (\<forall>i<n. \<exists>x. src ! (s + i) = Some x \<and> dst' ! (d + i) = Some x) \<and>
     (\<forall>j<length dst. j < d \<or> d + n \<le> j \<longrightarrow> dst' ! j = dst ! j)"
proof (induction n arbitrary: s d dst pr)
  case 0
  then show ?case by simp
next
  case (Suc n)
  from Suc.prems obtain x pr1 where
    rng: "s < length src" "d < length dst" and
    x: "src ! s = Some x" and
    rec: "copy_n src (Suc s) n (dst[d := Some x]) (Suc d) pr1 = Returns (dst', pr') u"
    by (auto split: if_splits option.splits sum.splits)
  note IH = Suc.IH [OF rec]
  have at_d: "dst' ! d = Some x" using IH rng by auto
  have elems: "\<exists>y. src ! (s + i) = Some y \<and> dst' ! (d + i) = Some y" if "i < Suc n" for i
  proof (cases i)
    case 0
    then show ?thesis using x at_d by simp
  next
    case (Suc k)
    then have "k < n" using that by simp
    then show ?thesis using IH Suc by auto
  qed
  have frame: "dst' ! j = dst ! j" if "j < length dst" "j < d \<or> d + Suc n \<le> j" for j
  proof -
    have "dst' ! j = dst[d := Some x] ! j" using IH that by auto
    then show ?thesis using that by auto
  qed
  have bounds: "s + Suc n \<le> length src \<and> d + Suc n \<le> length dst"
    using IH rng by (cases n) auto
  have "length dst' = length dst" using IH by simp
  then show ?case using elems frame bounds by blast
qed


lemma Vector_copy_Returns:
  assumes "Vector_copy T other pr = Returns pr1 c"
  shows "m_size c = m_size other \<and> m_capacity (m_data c) = m_size other \<and>
         length (m_buffer (m_data c)) = m_size other \<and>
         (\<forall>i<m_size other. \<exists>x. m_buffer (m_data other) ! i = Some x \<and>
                                m_buffer (m_data c) ! i = Some x)"
proof -
  from assms obtain src nm where
    cp0: "uninitialized_copy_n (m_buffer (m_data other)) 0 (m_size other)
           (Allocate T (m_size other)) 0 pr = Returns (src, nm, pr1) ()" and
    c: "c = \<lparr>m_data = \<lparr>m_buffer = nm, m_capacity = m_size other\<rparr>, m_size = m_size other\<rparr>"
    by (auto simp: Vector_copy_def RawMemory_new_def split: outcome.splits prod.splits)
  have "m_size other \<le> length (Allocate T (m_size other))"
    using uninitialized_copy_n_Returns [OF cp0] by (cases "m_size other") simp_all
  then have "Allocate T (m_size other) = replicate (m_size other) None"
    by (rule Allocate_full)
  then have cp: "uninitialized_copy_n (m_buffer (m_data other)) 0 (m_size other)
           (replicate (m_size other) None) 0 pr = Returns (src, nm, pr1) ()"
    using cp0 by simp
  note C = uninitialized_copy_n_Returns [OF cp]
  have "\<exists>x. m_buffer (m_data other) ! i = Some x \<and> nm ! i = Some x" if "i < m_size other" for i
    using C that by force
  then show ?thesis using C c by simp
qed


lemma copy_assign_swap_branch:
  assumes "a \<noteq> b" "VectorInv (s b)" "m_capacity (m_data (s a)) < m_size (s b)"
    "copy_assign T a b s pr = Returns (s', pr') ()"
  shows "m_size (s' a) = m_size (s b) \<and> elements (s' a) = elements (s b) \<and> VectorInv (s' a) \<and>
         (\<forall>c. c \<noteq> a \<longrightarrow> s' c = s c)"
proof -
  have inv: "length (m_buffer (m_data (s b))) = m_capacity (m_data (s b))"
    "m_size (s b) \<le> m_capacity (m_data (s b))"
    using assms(2) by (simp_all add: VectorInv_iff)
  have "copy_assign T a b s pr =
      (case Vector_copy T (s b) pr of
         Returns pr1 rhs_copy \<Rightarrow>
           (case Vector_destroy (snd (Swap (s a) rhs_copy)) pr1 of
              None \<Rightarrow> Undefined
            | Some pr2 \<Rightarrow> Returns (s(a := fst (Swap (s a) rhs_copy)), pr2) ())
       | Throws pr1 \<Rightarrow> Throws (s, pr1)
       | Undefined \<Rightarrow> Undefined)"
    using assms(1,3) by (simp add: copy_assign_def Let_def split_beta split: outcome.splits)
  with assms(4) obtain pr1 c where
    vc: "Vector_copy T (s b) pr = Returns pr1 c" and
    s': "s' = s(a := fst (Swap (s a) c))"
    by (auto split: outcome.splits option.splits)
  note C = Vector_copy_Returns [OF vc]
  have sw: "fst (Swap (s a) c) = c"
    by (simp add: Swap_def RawMemory_Swap_def)
  have same: "m_buffer (m_data c) ! i = m_buffer (m_data (s b)) ! i" if "i < m_size (s b)" for i
    using C that by force
  have el: "elements c = elements (s b)"
    using C inv same by (intro elements_eqI) auto
  have "VectorInv c"
    unfolding VectorInv_iff using C by force
  then show ?thesis using s' sw el C by simp
qed

lemma copy_assign_shrink_branch:
  assumes "a \<noteq> b" "VectorInv (s a)" "VectorInv (s b)"
    "m_size (s b) \<le> m_capacity (m_data (s a))" "m_size (s b) < m_size (s a)"
    "copy_assign T a b s pr = Returns (s', pr') ()"
  shows "m_size (s' a) = m_size (s b) \<and> elements (s' a) = elements (s b) \<and> VectorInv (s' a) \<and>
         m_capacity (m_data (s' a)) = m_capacity (m_data (s a)) \<and>
         (\<forall>c. c \<noteq> a \<longrightarrow> s' c = s c)"
proof -
  let ?v = "s a" and ?r = "s b"
  let ?bv = "m_buffer (m_data ?v)" and ?br = "m_buffer (m_data ?r)"
  have invr: "length ?br = m_capacity (m_data ?r)" "m_size ?r \<le> m_capacity (m_data ?r)"
    using assms(3) by (simp_all add: VectorInv_iff)
  have invv: "length ?bv = m_capacity (m_data ?v)" "m_size ?v \<le> m_capacity (m_data ?v)"
    "\<forall>i<m_capacity (m_data ?v). m_size ?v \<le> i \<longrightarrow> ?bv ! i = None"
    using assms(2) by (simp_all add: VectorInv_iff)
  have "copy_assign T a b s pr =
      (case copy_n ?br 0 (m_size ?r) ?bv 0 pr of
         Returns (buf, pr1) u \<Rightarrow>
           (case destroy_n buf (m_size ?r) (m_size ?v - m_size ?r) pr1 of
              None \<Rightarrow> Undefined
            | Some (buf', pr2) \<Rightarrow>
                Returns (s(a := (with_buffer ?v buf')\<lparr>m_size := m_size ?r\<rparr>), pr2) ())
       | Throws (buf, pr1) \<Rightarrow> Throws (s(a := with_buffer ?v buf), pr1)
       | Undefined \<Rightarrow> Undefined)"
    using assms(1,4,5) by (simp add: copy_assign_def Let_def)
  with assms(6) obtain buf pr1 buf' where
    cp: "copy_n ?br 0 (m_size ?r) ?bv 0 pr = Returns (buf, pr1) ()" and
    ds: "destroy_n buf (m_size ?r) (m_size ?v - m_size ?r) pr1 = Some (buf', pr')" and
    s': "s' = s(a := (with_buffer ?v buf')\<lparr>m_size := m_size ?r\<rparr>)"
    by (auto split: outcome.splits option.splits)
  note C = copy_n_Returns [OF cp]
  note D = destroy_n_Some [OF ds]
  have len: "length buf' = length ?bv" using C D by simp
  have low: "buf' ! i = ?br ! i \<and> ?br ! i \<noteq> None" if i: "i < m_size ?r" for i
  proof -
    have "\<forall>k<m_size ?r. \<exists>x. ?br ! k = Some x \<and> buf ! k = Some x" using C by simp
    then obtain x where "?br ! i = Some x" "buf ! i = Some x" using i by blast
    moreover have "buf' ! i = buf ! i" using D C i assms(5) invv by simp
    ultimately show ?thesis by simp
  qed
  have raw: "buf' ! i = None" if "m_size ?r \<le> i" "i < length ?bv" for i
  proof (cases "i < m_size ?v")
    case True
    then have "i - m_size ?r < m_size ?v - m_size ?r" using that by simp
    then have "buf' ! (m_size ?r + (i - m_size ?r)) = None" using D by blast
    then show ?thesis using that by simp
  next
    case False
    then have "buf' ! i = buf ! i" using D C that by simp
    also have "\<dots> = ?bv ! i" using C that by simp
    finally show ?thesis using False invv that by simp
  qed
  let ?v' = "(with_buffer ?v buf')\<lparr>m_size := m_size ?r\<rparr>"
  have I: "VectorInv ?v'"
    unfolding VectorInv_iff elements_with_buffer
    using len invv assms(4) low raw by auto
  have el: "elements ?v' = elements ?r"
    using len invv invr assms(4) low
    by (intro elements_eqI) (auto simp: elements_with_buffer)
  show ?thesis using s' I el by (simp add: elements_with_buffer)
qed

lemma copy_assign_grow_branch:
  assumes "a \<noteq> b" "VectorInv (s a)" "VectorInv (s b)"
    "m_size (s b) \<le> m_capacity (m_data (s a))" "m_size (s a) \<le> m_size (s b)"
    "copy_assign T a b s pr = Returns (s', pr') ()"
  shows "m_size (s' a) = m_size (s b) \<and> elements (s' a) = elements (s b) \<and> VectorInv (s' a) \<and>
         m_capacity (m_data (s' a)) = m_capacity (m_data (s a)) \<and>
         (\<forall>c. c \<noteq> a \<longrightarrow> s' c = s c)"
proof -
  let ?v = "s a" and ?r = "s b"
  let ?bv = "m_buffer (m_data ?v)" and ?br = "m_buffer (m_data ?r)"
  have invr: "length ?br = m_capacity (m_data ?r)" "m_size ?r \<le> m_capacity (m_data ?r)"
    using assms(3) by (simp_all add: VectorInv_iff)
  have invv: "length ?bv = m_capacity (m_data ?v)" "m_size ?v \<le> m_capacity (m_data ?v)"
    "\<forall>i<m_capacity (m_data ?v). m_size ?v \<le> i \<longrightarrow> ?bv ! i = None"
    using assms(2) by (simp_all add: VectorInv_iff)
  have "copy_assign T a b s pr =
      (case copy_n ?br 0 (m_size ?v) ?bv 0 pr of
         Returns (buf, pr1) u \<Rightarrow>
           (case uninitialized_copy_n ?br (m_size ?v) (m_size ?r - m_size ?v) buf (m_size ?v) pr1 of
              Returns (src, buf', pr2) u \<Rightarrow>
                Returns (s(a := (with_buffer ?v buf')\<lparr>m_size := m_size ?r\<rparr>), pr2) ()
            | Throws (src, buf', pr2) \<Rightarrow> Throws (s(a := with_buffer ?v buf'), pr2)
            | Undefined \<Rightarrow> Undefined)
       | Throws (buf, pr1) \<Rightarrow> Throws (s(a := with_buffer ?v buf), pr1)
       | Undefined \<Rightarrow> Undefined)"
    using assms(1,4,5) by (simp add: copy_assign_def Let_def)
  with assms(6) obtain buf pr1 src buf' where
    cp: "copy_n ?br 0 (m_size ?v) ?bv 0 pr = Returns (buf, pr1) ()" and
    uc: "uninitialized_copy_n ?br (m_size ?v) (m_size ?r - m_size ?v) buf (m_size ?v) pr1
           = Returns (src, buf', pr') ()" and
    s': "s' = s(a := (with_buffer ?v buf')\<lparr>m_size := m_size ?r\<rparr>)"
    by (auto split: outcome.splits)
  note C = copy_n_Returns [OF cp]
  note U = uninitialized_copy_n_Returns [OF uc]
  have len: "length buf' = length ?bv" using C U by simp
  have low: "buf' ! i = ?br ! i \<and> ?br ! i \<noteq> None" if "i < m_size ?r" for i
  proof (cases "i < m_size ?v")
    case True
    have "\<forall>k<m_size ?v. \<exists>x. ?br ! k = Some x \<and> buf ! k = Some x" using C by simp
    then obtain x where "?br ! i = Some x" "buf ! i = Some x" using True by blast
    moreover have "buf' ! i = buf ! i" using U C True invv by simp
    ultimately show ?thesis by simp
  next
    case False
    then have "i - m_size ?v < m_size ?r - m_size ?v" using that by simp
    then obtain x where "?br ! (m_size ?v + (i - m_size ?v)) = Some x"
      "buf' ! (m_size ?v + (i - m_size ?v)) = Some x" using U by blast
    then show ?thesis using False by simp
  qed
  have raw: "buf' ! i = None" if "m_size ?r \<le> i" "i < length ?bv" for i
  proof -
    have "buf' ! i = buf ! i" using U C that assms(5) by simp
    also have "\<dots> = ?bv ! i" using C that assms(5) by simp
    finally show ?thesis using invv that assms(5) by simp
  qed
  let ?v' = "(with_buffer ?v buf')\<lparr>m_size := m_size ?r\<rparr>"
  have I: "VectorInv ?v'"
    unfolding VectorInv_iff elements_with_buffer
    using len invv assms(4) low raw by auto
  have el: "elements ?v' = elements ?r"
    using len invv invr assms(4) low
    by (intro elements_eqI) (auto simp: elements_with_buffer)
  show ?thesis using s' I el by (simp add: elements_with_buffer)
qed


lemma copy_assign_Returns:
  assumes "a \<noteq> b" "VectorInv (s a)" "VectorInv (s b)"
    "copy_assign T a b s pr = Returns (s', pr') ()"
  shows "m_size (s' a) = m_size (s b) \<and> elements (s' a) = elements (s b) \<and> VectorInv (s' a) \<and>
         (\<forall>c. c \<noteq> a \<longrightarrow> s' c = s c) \<and>
         (m_size (s b) \<le> m_capacity (m_data (s a)) \<longrightarrow>
            m_capacity (m_data (s' a)) = m_capacity (m_data (s a)))"
proof -
  consider (swap) "m_capacity (m_data (s a)) < m_size (s b)"
    | (shrink) "m_size (s b) \<le> m_capacity (m_data (s a))" "m_size (s b) < m_size (s a)"
    | (grow) "m_size (s b) \<le> m_capacity (m_data (s a))" "m_size (s a) \<le> m_size (s b)"
    by linarith
  then show ?thesis
  proof cases
    case swap
    show ?thesis
      using copy_assign_swap_branch [OF assms(1,3) swap assms(4)] swap by simp
  next
    case shrink
    show ?thesis
      using copy_assign_shrink_branch [OF assms(1,2,3) shrink assms(4)] by simp
  next
    case grow
    show ?thesis
      using copy_assign_grow_branch [OF assms(1,2,3) grow assms(4)] by simp
  qed
qed

subsection \<open>Unfolding for concrete runs\<close>

lemmas run_defs =
  PushBack_def EmplaceBack_def Emplace_def Emplace_realloc_def Emplace_shift_def Emplace_end_def
  Erase_def PopBack_def Reserve_def Resize_def Insert_def Insert_move_def
  copy_assign_def move_assign_def Vector_move_def Vector_copy_def Vector_sized_def
  Vector_destroy_def Swap_def Swap_at_def
  to_int_def size_t_minus_def CopyOrMoveElements_def destroy_at_def with_buffer_def at_def
  uninitialized_copy_n_def uninitialized_move_n_def uninitialized_value_construct_n_def
  RawMemory_new_def RawMemory_default_def RawMemory_Swap_def Allocate_small Vector_default_def
  may_throw_def no_throw_def move_construct_def
  throwing_type_def nothrow_type_def never_fails_def fails_after_def vec_def store_of_def
  Size_def Capacity_def VectorInv_def elements_def
  Let_def eval_nat_numeral

subsection \<open>Shifting inside a buffer\<close>

lemma move_n_Returns:
  "move_n T buf (Suc d) n d pr = Returns (buf', pr') u \<Longrightarrow>
     length buf' = length buf \<and>
     (0 < n \<longrightarrow> d + n < length buf) \<and>
     (\<forall>i<n. \<exists>x. buf ! (d + i + 1) = Some x \<and> buf' ! (d + i) = Some x) \<and>
     (0 < n \<longrightarrow> (\<exists>x. buf ! (d + n) = Some x \<and> buf' ! (d + n) = Some (moved_from T x))) \<and>
     (n = 0 \<longrightarrow> buf' = buf) \<and>
     (\<forall>j<length buf. j < d \<or> d + n < j \<longrightarrow> buf' ! j = buf ! j)"
proof (induction n arbitrary: d buf pr)
  case 0
  then show ?case by simp
next
  case (Suc n)
  let ?b1 = "buf[Suc d := Some (moved_from T (the (buf ! Suc d))), d := buf ! Suc d]"
  from Suc.prems obtain x y pr1 where
    rng: "Suc d < length buf" and
    x: "buf ! Suc d = Some x" and y: "buf ! d = Some y" and
    rec: "move_n T (buf[Suc d := Some (moved_from T x), d := Some x]) (Suc (Suc d)) n (Suc d) pr1
            = Returns (buf', pr') u"
    by (auto split: if_splits option.splits sum.splits)
  let ?b1 = "buf[Suc d := Some (moved_from T x), d := Some x]"
  note IH = Suc.IH [OF rec]
  have len: "length buf' = length buf" using IH by simp
  have at_d: "buf' ! d = Some x"
  proof -
    have "buf' ! d = ?b1 ! d" using IH rng by simp
    then show ?thesis using rng by simp
  qed
  have elems: "\<exists>z. buf ! (d + i + 1) = Some z \<and> buf' ! (d + i) = Some z" if i: "i < Suc n" for i
  proof (cases i)
    case 0
    then show ?thesis using x at_d by simp
  next
    case (Suc k)
    then have k: "k < n" using i by simp
    then obtain z where z: "?b1 ! (Suc d + k + 1) = Some z" "buf' ! (Suc d + k) = Some z"
      using IH by blast
    have "?b1 ! (Suc d + k + 1) = buf ! (Suc d + k + 1)" by simp
    then show ?thesis using z Suc by simp
  qed
  have last: "\<exists>z. buf ! (d + Suc n) = Some z \<and> buf' ! (d + Suc n) = Some (moved_from T z)"
  proof (cases n)
    case 0
    then have "buf' = ?b1" using IH by simp
    then show ?thesis using 0 x rng by simp
  next
    case (Suc m)
    then obtain z where z: "?b1 ! (Suc d + n) = Some z" "buf' ! (Suc d + n) = Some (moved_from T z)"
      using IH by blast
    have "?b1 ! (Suc d + n) = buf ! (Suc d + n)" using Suc by simp
    then show ?thesis using z by simp
  qed
  have frame: "buf' ! j = buf ! j" if j: "j < length buf" "j < d \<or> d + Suc n < j" for j
  proof -
    have "buf' ! j = ?b1 ! j" using IH j by auto
    then show ?thesis using j by auto
  qed
  have bounds: "d + Suc n < length buf"
    using IH rng by (cases n) auto
  show ?case using len elems last frame bounds by simp
qed

lemma move_n_never:
  "countdown pr = None \<Longrightarrow> d + n < length buf \<Longrightarrow> \<forall>i\<le>n. buf ! (d + i) \<noteq> None \<Longrightarrow>
   \<exists>buf' pr'. move_n T buf (Suc d) n d pr = Returns (buf', pr') () \<and> countdown pr' = None"
proof (induction n arbitrary: d buf pr)
  case 0
  then show ?case by simp
next
  case (Suc n)
  from Suc.prems(3) obtain y where y: "buf ! d = Some y" by force
  have "(1::nat) \<le> Suc n" by simp
  with Suc.prems(3) have "buf ! (d + 1) \<noteq> None" by blast
  then obtain x where x: "buf ! Suc d = Some x" by auto
  let ?b1 = "buf[Suc d := Some (moved_from T x), d := Some x]"
  have live: "\<forall>i\<le>n. ?b1 ! (Suc d + i) \<noteq> None"
  proof (intro allI impI)
    fix i assume i: "i \<le> n"
    then have "Suc i \<le> Suc n" by simp
    with Suc.prems(3) have "buf ! (d + Suc i) \<noteq> None" by blast
    then show "?b1 ! (Suc d + i) \<noteq> None" using Suc.prems(2) by (cases i) simp_all
  qed
  have "\<exists>buf' pr'. move_n T ?b1 (Suc (Suc d)) n (Suc d) (no_throw (MoveAssign x) pr)
          = Returns (buf', pr') () \<and> countdown pr' = None"
    using Suc.prems(1,2) live by (intro Suc.IH) auto
  then show ?case using Suc.prems x y by (auto simp: may_throw_never)
qed

lemma move_backward_Returns:
  "move_backward T buf f n (f + n + 1) pr = Returns (buf', pr') u \<Longrightarrow>
     length buf' = length buf \<and>
     (0 < n \<longrightarrow> f + n < length buf) \<and>
     (\<forall>i<n. \<exists>x. buf ! (f + i) = Some x \<and> buf' ! (f + i + 1) = Some x) \<and>
     (0 < n \<longrightarrow> buf' ! f \<noteq> None) \<and>
     (n = 0 \<longrightarrow> buf' = buf) \<and>
     (\<forall>j<length buf. j < f \<or> f + n < j \<longrightarrow> buf' ! j = buf ! j)"
proof (induction n arbitrary: buf pr)
  case 0
  then show ?case by simp
next
  case (Suc n)
  from Suc.prems obtain x y pr1 where
    rng: "f + n + 1 < length buf" and
    x: "buf ! (f + n) = Some x" and y: "buf ! (f + n + 1) = Some y" and
    rec: "move_backward T (buf[f + n := Some (moved_from T x), f + n + 1 := Some x]) f n (f + n + 1) pr1
            = Returns (buf', pr') u"
    by (auto split: if_splits option.splits sum.splits)
  let ?b1 = "buf[f + n := Some (moved_from T x), f + n + 1 := Some x]"
  note IH = Suc.IH [OF rec]
  have len: "length buf' = length buf" using IH by simp
  have top: "buf' ! (f + n + 1) = Some x"
  proof -
    have "buf' ! (f + n + 1) = ?b1 ! (f + n + 1)" using IH rng by simp
    then show ?thesis using rng by simp
  qed
  have elems: "\<exists>z. buf ! (f + i) = Some z \<and> buf' ! (f + i + 1) = Some z" if i: "i < Suc n" for i
  proof (cases "i = n")
    case True
    then show ?thesis using x top by simp
  next
    case False
    then have k: "i < n" using i by simp
    then obtain z where z: "?b1 ! (f + i) = Some z" "buf' ! (f + i + 1) = Some z"
      using IH by blast
    have "?b1 ! (f + i) = buf ! (f + i)" using k by simp
    then show ?thesis using z by simp
  qed
  have first: "buf' ! f \<noteq> None"
  proof (cases n)
    case 0
    then have "buf' = ?b1" using IH by simp
    then show ?thesis using 0 rng by simp
  next
    case (Suc m)
    then show ?thesis using IH by simp
  qed
  have frame: "buf' ! j = buf ! j" if j: "j < length buf" "j < f \<or> f + Suc n < j" for j
  proof -
    have "buf' ! j = ?b1 ! j" using IH j by auto
    then show ?thesis using j by auto
  qed
  have bounds: "f + Suc n < length buf" using rng by simp
  show ?case using len elems first frame bounds by simp
qed

lemma move_backward_never:
  "countdown pr = None \<Longrightarrow> f + n < length buf \<Longrightarrow> \<forall>i\<le>n. buf ! (f + i) \<noteq> None \<Longrightarrow>
   \<exists>buf' pr'. move_backward T buf f n (f + n + 1) pr = Returns (buf', pr') () \<and> countdown pr' = None"
proof (induction n arbitrary: buf pr)
  case 0
  then show ?case by simp
next
  case (Suc n)
  have "Suc n \<le> Suc n" "n \<le> Suc n" by simp_all
  with Suc.prems(3) have "buf ! (f + Suc n) \<noteq> None" "buf ! (f + n) \<noteq> None" by blast+
  then obtain y where y: "buf ! (f + n + 1) = Some y" by auto
  have "buf ! (f + n) \<noteq> None" by fact
  then obtain x where x: "buf ! (f + n) = Some x" by auto
  let ?b1 = "buf[f + n := Some (moved_from T x), f + n + 1 := Some x]"
  have live: "\<forall>i\<le>n. ?b1 ! (f + i) \<noteq> None"
  proof (intro allI impI)
    fix i assume i: "i \<le> n"
    then have "i \<le> Suc n" by simp
    with Suc.prems(3) have "buf ! (f + i) \<noteq> None" by blast
    then show "?b1 ! (f + i) \<noteq> None" using Suc.prems(2) i by (cases "i = n") simp_all
  qed
  have "\<exists>buf' pr'. move_backward T ?b1 f n (f + n + 1) (no_throw (MoveAssign x) pr)
          = Returns (buf', pr') () \<and> countdown pr' = None"
    using Suc.prems(1,2) live by (intro Suc.IH) auto
  then show ?case using Suc.prems x y by (auto simp: may_throw_never)
qed

subsection \<open>Erase\<close>

lemma to_int_small: "pos < 2 ^ 31 \<Longrightarrow> to_int pos = int pos"
  by (simp add: to_int_def)

lemma PopBack_Returns:
  assumes "PopBack v pr = Returns (v', pr') u" "0 < m_size v"
  shows "m_size v' = m_size v - 1 \<and> m_capacity (m_data v') = m_capacity (m_data v) \<and>
         length (m_buffer (m_data v')) = length (m_buffer (m_data v)) \<and>
         m_size v \<le> length (m_buffer (m_data v)) \<and>
         m_buffer (m_data v) ! (m_size v - 1) \<noteq> None \<and>
         m_buffer (m_data v') ! (m_size v - 1) = None \<and>
         (\<forall>j<length (m_buffer (m_data v)). j \<noteq> m_size v - 1 \<longrightarrow>
             m_buffer (m_data v') ! j = m_buffer (m_data v) ! j)"
proof -
  from assms obtain buf where
    ds: "destroy_n (m_buffer (m_data v)) (m_size v - 1) 1 pr = Some (buf, pr')" and
    v': "v' = (with_buffer v buf)\<lparr>m_size := m_size v - 1\<rparr>"
    by (auto simp: PopBack_def destroy_at_def split: option.splits)
  note D = destroy_n_Some [OF ds]
  have "buf ! j = m_buffer (m_data v) ! j" if "j < length (m_buffer (m_data v))" "j \<noteq> m_size v - 1" for j
    using D that by auto
  moreover have "m_buffer (m_data v) ! (m_size v - 1) \<noteq> None \<and> buf ! (m_size v - 1) = None"
    using D by auto
  ultimately show ?thesis using D v' assms(2) by (auto simp: elements_with_buffer)
qed

lemma Erase_Returns:
  assumes "VectorInv v" "Erase T v pos pr = Returns (v', pr') r"
  shows "0 \<le> to_int pos \<and> nat (to_int pos) < m_size v \<and> r = nat (to_int pos) \<and>
         m_size v' = m_size v - 1 \<and> m_capacity (m_data v') = m_capacity (m_data v) \<and>
         elements v' = take (nat (to_int pos)) (elements v) @ drop (Suc (nat (to_int pos))) (elements v) \<and>
         VectorInv v'"
proof -
  let ?np = "nat (to_int pos)"
  let ?b = "m_buffer (m_data v)"
  have inv: "length ?b = m_capacity (m_data v)" "m_size v \<le> m_capacity (m_data v)"
    "\<forall>i<m_size v. ?b ! i \<noteq> None"
    "\<forall>i<m_capacity (m_data v). m_size v \<le> i \<longrightarrow> ?b ! i = None"
    using assms(1) by (simp_all add: VectorInv_iff)
  from assms(2) have pos: "0 \<le> to_int pos" "?np < m_size v"
    by (auto simp: Erase_def Let_def split: if_splits)
  then have "Erase T v pos pr =
      (case move_n T ?b (?np + 1) (m_size v - (?np + 1)) ?np pr of
         Returns (buf, pr1) u \<Rightarrow>
           (case PopBack (with_buffer v buf) pr1 of
              Returns st u \<Rightarrow> Returns st ?np
            | Throws st \<Rightarrow> Throws st
            | Undefined \<Rightarrow> Undefined)
       | Throws (buf, pr1) \<Rightarrow> Throws (with_buffer v buf, pr1)
       | Undefined \<Rightarrow> Undefined)"
    by (simp add: Erase_def Let_def)
  with assms(2) obtain buf pr1 where
    mv: "move_n T ?b (Suc ?np) (m_size v - (?np + 1)) ?np pr = Returns (buf, pr1) ()" and
    pb: "PopBack (with_buffer v buf) pr1 = Returns (v', pr') ()" and
    r: "r = ?np"
    by (auto split: outcome.splits)
  note M = move_n_Returns [OF mv]
  have sz: "0 < m_size (with_buffer v buf)" using pos by (simp add: elements_with_buffer)
  note P = PopBack_Returns [OF pb sz, unfolded elements_with_buffer]
  let ?b' = "m_buffer (m_data v')"
  have len: "length ?b' = length ?b" using M P by simp
  have low: "?b' ! i = ?b ! i" if i: "i < ?np" for i
  proof -
    have "?b' ! i = buf ! i" using P M i pos inv by simp
    then show ?thesis using M i pos inv by simp
  qed
  have mid: "?b' ! i = ?b ! (i + 1)" if i: "?np \<le> i" "i + 1 < m_size v" for i
  proof -
    have "i - ?np < m_size v - (?np + 1)" using i by simp
    then obtain x where "?b ! (?np + (i - ?np) + 1) = Some x" "buf ! (?np + (i - ?np)) = Some x"
      using M by blast
    then have "buf ! i = ?b ! (i + 1)" using i by simp
    moreover have "?b' ! i = buf ! i" using P M i pos inv by simp
    ultimately show ?thesis by simp
  qed
  have raw: "?b' ! i = None" if i: "m_size v - 1 \<le> i" "i < length ?b" for i
  proof (cases "i = m_size v - 1")
    case True
    then show ?thesis using P by simp
  next
    case False
    then have "?b' ! i = buf ! i" using P M i by simp
    also have "\<dots> = ?b ! i" using M i False pos by simp
    finally show ?thesis using inv i False by simp
  qed
  have I: "VectorInv v'"
    unfolding VectorInv_iff
  proof (intro conjI allI impI)
    show "length ?b' = m_capacity (m_data v')" using len inv P by simp
    show "m_size v' \<le> m_capacity (m_data v')" using P inv by simp
    show "?b' ! i \<noteq> None" if "i < m_size v'" for i
    proof (cases "i < ?np")
      case True
      then show ?thesis using low [of i] inv that P by simp
    next
      case False
      have a: "?np \<le> i" using False by simp
      have b: "i + 1 < m_size v" using that P by simp
      have "?b' ! i = ?b ! (i + 1)" using mid [OF a b] .
      then show ?thesis using inv b by simp
    qed
    show "?b' ! i = None" if "i < m_capacity (m_data v')" "m_size v' \<le> i" for i
      using raw [of i] that P inv by simp
  qed
  have sz': "m_size v' = m_size v - 1" "m_size v \<le> length ?b" "m_size v \<le> length ?b'"
    using P len inv by simp_all
  have el: "elements v' = take ?np (elements v) @ drop (Suc ?np) (elements v)"
  proof (rule nth_equalityI)
    show "length (elements v') = length (take ?np (elements v) @ drop (Suc ?np) (elements v))"
      using sz' pos by (simp add: elements_def)
  next
    fix i assume "i < length (elements v')"
    then have i: "i < m_size v - 1" using sz' by (simp add: elements_def)
    show "elements v' ! i = (take ?np (elements v) @ drop (Suc ?np) (elements v)) ! i"
    proof (cases "i < ?np")
      case True
      then show ?thesis
        using i sz' pos low [of i] by (simp add: elements_def nth_append)
    next
      case False
      have a: "?np \<le> i" using False by simp
      have b: "i + 1 < m_size v" using i by simp
      have "?b' ! i = ?b ! (i + 1)" using mid [OF a b] .
      then show ?thesis
        using False i sz' pos by (simp add: elements_def nth_append)
    qed
  qed
  show ?thesis using pos r P I el by simp
qed

lemma Erase_never:
  assumes "VectorInv v" "countdown pr = None" "0 \<le> to_int pos" "nat (to_int pos) < m_size v"
  shows "\<exists>v' pr'. Erase T v pos pr = Returns (v', pr') (nat (to_int pos))"
proof -
  let ?np = "nat (to_int pos)"
  let ?b = "m_buffer (m_data v)"
  have inv: "length ?b = m_capacity (m_data v)" "m_size v \<le> m_capacity (m_data v)"
    "\<forall>i<m_size v. ?b ! i \<noteq> None"
    using assms(1) by (simp_all add: VectorInv_iff)
  have "\<exists>buf pr1. move_n T ?b (Suc ?np) (m_size v - (?np + 1)) ?np pr = Returns (buf, pr1) () \<and>
          countdown pr1 = None"
    using assms inv by (intro move_n_never) auto
  then obtain buf pr1 where
    mv: "move_n T ?b (Suc ?np) (m_size v - (?np + 1)) ?np pr = Returns (buf, pr1) ()"
    by blast
  note M = move_n_Returns [OF mv]
  have "buf ! (m_size v - 1) \<noteq> None"
  proof (cases "m_size v - (?np + 1)")
    case 0
    then have "buf = ?b" using M by simp
    then show ?thesis using inv assms(4) by simp
  next
    case (Suc k)
    then have "0 < m_size v - (?np + 1)" by simp
    with M have "\<exists>x. buf ! (?np + (m_size v - (?np + 1))) = Some (moved_from T x)"
      by blast
    moreover have "?np + (m_size v - (?np + 1)) = m_size v - 1" using assms(4) by simp
    ultimately show ?thesis by auto
  qed
  moreover have "m_size v - 1 + 1 \<le> length buf" using M inv assms(4) by simp
  ultimately have "\<exists>st. destroy_n buf (m_size v - 1) 1 pr1 = Some st"
    by (intro destroy_n_live) auto
  then have "\<exists>st. destroy_at buf (m_size v - 1) pr1 = Some st"
    unfolding destroy_at_def .
  then have "\<exists>v' pr'. PopBack (with_buffer v buf) pr1 = Returns (v', pr') ()"
    using assms(4) by (auto simp: PopBack_def elements_with_buffer)
  then show ?thesis using assms(3,4) mv
    by (auto simp: Erase_def Let_def)
qed

subsection \<open>Emplace\<close>

lemma inserted_buffer:
  assumes inv: "length (m_buffer (m_data v)) = m_capacity (m_data v)"
      "m_size v \<le> m_capacity (m_data v)" "\<forall>i<m_size v. m_buffer (m_data v) ! i \<noteq> None"
    and np: "np \<le> m_size v"
    and sz: "m_size v' = m_size v + 1" "length (m_buffer (m_data v')) = m_capacity (m_data v')"
      "m_size v < m_capacity (m_data v')"
    and low: "\<forall>i<np. m_buffer (m_data v') ! i = m_buffer (m_data v) ! i"
    and new: "m_buffer (m_data v') ! np = Some x"
    and high: "\<forall>i. np \<le> i \<and> i < m_size v \<longrightarrow> m_buffer (m_data v') ! (i + 1) = m_buffer (m_data v) ! i"
    and raw: "\<forall>j<m_capacity (m_data v'). m_size v + 1 \<le> j \<longrightarrow> m_buffer (m_data v') ! j = None"
  shows "VectorInv v' \<and> elements v' = take np (elements v) @ [x] @ drop np (elements v)"
proof -
  let ?b = "m_buffer (m_data v)" and ?b' = "m_buffer (m_data v')"
  let ?n = "m_size v"
  have shifted: "?b' ! i = ?b ! (i - 1)" if i: "np < i" "i < ?n + 1" for i
  proof -
    have "np \<le> i - 1 \<and> i - 1 < ?n" using i by arith
    then have "?b' ! (i - 1 + 1) = ?b ! (i - 1)" using high by blast
    then show ?thesis using i by simp
  qed
  have I: "VectorInv v'"
    unfolding VectorInv_iff
  proof (intro conjI allI impI)
    show "length ?b' = m_capacity (m_data v')" using sz by simp
    show "m_size v' \<le> m_capacity (m_data v')" using sz by simp
    show "?b' ! i \<noteq> None" if "i < m_size v'" for i
    proof -
      consider "i < np" | "i = np" | "np < i"
        by linarith
      then show ?thesis
      proof cases
        case 1
        then show ?thesis using low inv np by simp
      next
        case 2
        then show ?thesis using new by simp
      next
        case 3
        then have "?b' ! i = ?b ! (i - 1)" using that sz by (intro shifted) auto
        then show ?thesis using 3 that sz inv by simp
      qed
    qed
    show "?b' ! i = None" if "i < m_capacity (m_data v')" "m_size v' \<le> i" for i
      using raw that sz by simp
  qed
  have el: "elements v' = take np (elements v) @ [x] @ drop np (elements v)"
  proof (rule nth_equalityI)
    show "length (elements v') = length (take np (elements v) @ [x] @ drop np (elements v))"
      using sz inv np by (simp add: elements_def)
  next
    fix i assume "i < length (elements v')"
    then have i: "i < ?n + 1" using sz by (simp add: elements_def)
    consider "i < np" | "i = np" | "np < i"
      by linarith
    then show "elements v' ! i = (take np (elements v) @ [x] @ drop np (elements v)) ! i"
    proof cases
      case 1
      then show ?thesis
        using sz inv np i low by (simp add: elements_def nth_append)
    next
      case 2
      then show ?thesis
        using sz inv np i new by (simp add: elements_def nth_append)
    next
      case 3
      then have "?b' ! i = ?b ! (i - 1)" using i by (intro shifted) auto
      then show ?thesis
        using 3 sz inv np i by (simp add: elements_def nth_append)
    qed
  qed
  show ?thesis using I el by simp
qed

lemma Emplace_realloc_Returns:
  assumes "VectorInv v" "m_capacity (m_data v) \<le> m_size v" "np \<le> m_size v"
    "Emplace_realloc T v (int np) a pr = Returns (v', pr') r"
    "fits T (if m_size v = 0 then 1 else m_size v * 2)"
  shows "r = np \<and> m_size v' = m_size v + 1 \<and>
         elements v' = take np (elements v) @ [init_value a] @ drop np (elements v) \<and>
         VectorInv v'"
proof -
  let ?b = "m_buffer (m_data v)"
  let ?n = "m_size v"
  define c where "c = (if ?n = 0 then 1 else ?n * 2)"
  define nb where "nb = (m_buffer (RawMemory_new T c))[np := Some (init_value a)]"
  have inv: "length ?b = m_capacity (m_data v)" "?n \<le> m_capacity (m_data v)"
    "\<forall>i<?n. ?b ! i \<noteq> None"
    using assms(1) by (simp_all add: VectorInv_iff)
  have cap: "?n < c" by (simp add: c_def)
  have fc: "fits T c" using assms(5) by (simp add: c_def)
  have nb: "nb = (replicate c None)[np := Some (init_value a)]"
    by (simp add: nb_def RawMemory_new_fits [OF fc])
  have "np < length (m_buffer (RawMemory_new T c :: 'a RawMemory))"
    using cap assms(3) by (simp add: RawMemory_new_fits [OF fc])
  then have E: "Emplace_realloc T v (int np) a pr =
      (case construct T a pr of
         Inl pr1 \<Rightarrow> Throws (v, pr1)
       | Inr pr1 \<Rightarrow>
           (case
              (case CopyOrMoveElements T ?b 0 nb 0 np pr1 of
                 Returns (om, nm, pr2) u \<Rightarrow>
                   CopyOrMoveElements T om np nm (np + 1) (size_t_minus ?n np) pr2
               | Throws st \<Rightarrow> Throws st
               | Undefined \<Rightarrow> Undefined)
            of
              Returns (om, nm, pr3) u \<Rightarrow>
                Returns (v\<lparr>m_data := fst (RawMemory_Swap ((m_data v)\<lparr>m_buffer := om\<rparr>)
                                            ((RawMemory_new T c)\<lparr>m_buffer := nm\<rparr>)),
                           m_size := ?n + 1\<rparr>, pr3) np
            | Throws (om, nm, pr3) \<Rightarrow>
                (case destroy_at nm np pr3 of
                   None \<Rightarrow> Undefined
                 | Some (nm', pr4) \<Rightarrow> Throws (with_buffer v om, pr4))
            | Undefined \<Rightarrow> Undefined))"
    unfolding Emplace_realloc_def Let_def nat_int c_def [symmetric] nb_def by simp
  from assms(4) E obtain pr1 where k: "construct T a pr = Inr pr1"
    by (cases "construct T a pr") auto
  from assms(4) E k obtain om nm pr2 where
    c1: "CopyOrMoveElements T ?b 0 nb 0 np pr1 = Returns (om, nm, pr2) ()"
    by (cases "CopyOrMoveElements T ?b 0 nb 0 np pr1") (auto split: option.splits)
  from assms(4) E k c1 obtain om2 nm2 where
    c2: "CopyOrMoveElements T om np nm (np + 1) (size_t_minus ?n np) pr2 = Returns (om2, nm2, pr') ()" and
    v': "v' = v\<lparr>m_data := \<lparr>m_buffer = nm2, m_capacity = c\<rparr>, m_size := ?n + 1\<rparr>" and
    r: "r = np"
    by (cases "CopyOrMoveElements T om np nm (np + 1) (size_t_minus ?n np) pr2")
      (auto simp: RawMemory_Swap_def RawMemory_new_def split: option.splits)
  have "size_t_minus ?n np = ?n - np" using assms(3) by (simp add: size_t_minus_def)
  with c2 have c2: "CopyOrMoveElements T om np nm (np + 1) (?n - np) pr2 = Returns (om2, nm2, pr') ()"
    by simp
  note c1 = c1 [unfolded nb]
  let ?c = c
  let ?nb = "(replicate c None)[np := Some (init_value a)]"
  note R1 = CopyOrMoveElements_Returns [OF c1]
  note R2 = CopyOrMoveElements_Returns [OF c2]
  have len: "length nm2 = ?c" using R1 R2 by simp
  have low: "nm2 ! i = ?b ! i" if i: "i < np" for i
  proof -
    have "nm2 ! i = nm ! i" using R2 R1 i assms(3) cap by simp
    moreover obtain x where "?b ! i = Some x" "nm ! i = Some x" using R1 i by force
    ultimately show ?thesis by simp
  qed
  have new: "nm2 ! np = Some (init_value a)"
  proof -
    have "nm2 ! np = nm ! np" using R2 R1 assms(3) cap by simp
    also have "\<dots> = ?nb ! np" using R1 assms(3) cap by simp
    finally show ?thesis using assms(3) cap by simp
  qed
  have high: "nm2 ! (i + 1) = ?b ! i" if i: "np \<le> i" "i < ?n" for i
  proof -
    have "i - np < ?n - np" using i by simp
    then obtain x where "om ! (np + (i - np)) = Some x" "nm2 ! (np + 1 + (i - np)) = Some x"
      using R2 by blast
    then have "nm2 ! (i + 1) = om ! i" using i by simp
    moreover have "om ! i = ?b ! i" using R1 i inv by simp
    ultimately show ?thesis by simp
  qed
  have raw: "nm2 ! j = None" if j: "?n + 1 \<le> j" "j < ?c" for j
  proof -
    have "nm2 ! j = nm ! j" using R2 R1 j assms(3) by simp
    also have "\<dots> = ?nb ! j" using R1 j assms(3) by simp
    finally show ?thesis using j assms(3) by simp
  qed
  have "VectorInv v' \<and> elements v' = take np (elements v) @ [init_value a] @ drop np (elements v)"
  proof (rule inserted_buffer [OF inv assms(3)])
    show "m_size v' = ?n + 1" using v' by simp
    show "length (m_buffer (m_data v')) = m_capacity (m_data v')" using v' len by simp
    show "?n < m_capacity (m_data v')" using v' cap by simp
    show "\<forall>i<np. m_buffer (m_data v') ! i = ?b ! i" using v' low by simp
    show "m_buffer (m_data v') ! np = Some (init_value a)" using v' new by simp
    show "\<forall>i. np \<le> i \<and> i < ?n \<longrightarrow> m_buffer (m_data v') ! (i + 1) = ?b ! i"
      using v' high by simp
    show "\<forall>j<m_capacity (m_data v'). ?n + 1 \<le> j \<longrightarrow> m_buffer (m_data v') ! j = None"
      using v' raw by simp
  qed
  then show ?thesis using r v' by simp
qed

lemma construct_never_countdown:
  "countdown pr = None \<Longrightarrow> \<exists>pr1. construct T a pr = Inr pr1 \<and> countdown pr1 = None"
  by (cases a) (auto simp: may_throw_never move_construct_never)

lemma Emplace_realloc_never:
  assumes "VectorInv v" "m_capacity (m_data v) \<le> m_size v" "np \<le> m_size v" "countdown pr = None"
    "fits T (if m_size v = 0 then 1 else m_size v * 2)"
  shows "\<exists>v' pr'. Emplace_realloc T v (int np) a pr = Returns (v', pr') np \<and>
           countdown pr' = None"
proof -
  let ?b = "m_buffer (m_data v)"
  let ?n = "m_size v"
  define c where "c = (if ?n = 0 then 1 else ?n * 2)"
  define nb where "nb = (m_buffer (RawMemory_new T c))[np := Some (init_value a)]"
  have inv: "length ?b = m_capacity (m_data v)" "?n \<le> m_capacity (m_data v)"
    "\<forall>i<?n. ?b ! i \<noteq> None"
    using assms(1) by (simp_all add: VectorInv_iff)
  have cap: "?n < c" by (simp add: c_def)
  have fc: "fits T c" using assms(5) by (simp add: c_def)
  have nb: "length nb = c"
    by (simp add: nb_def RawMemory_new_fits [OF fc])
  have lt: "np < length (m_buffer (RawMemory_new T c :: 'a RawMemory))"
    using cap assms(3) by (simp add: RawMemory_new_fits [OF fc])
  from construct_never_countdown [OF assms(4), of T a] obtain pr1 where
    k: "construct T a pr = Inr pr1" and k0: "countdown pr1 = None" by blast
  have "\<exists>om nm pr2. CopyOrMoveElements T ?b 0 nb 0 np pr1 = Returns (om, nm, pr2) () \<and>
          countdown pr2 = None"
    using k0 inv assms(3) nb cap by (intro CopyOrMoveElements_never) auto
  then obtain om nm pr2 where
    c1: "CopyOrMoveElements T ?b 0 nb 0 np pr1 = Returns (om, nm, pr2) ()" and
    k2: "countdown pr2 = None" by blast
  note R1 = CopyOrMoveElements_Returns [OF c1]
  have sm: "size_t_minus ?n np = ?n - np" using assms(3) by (simp add: size_t_minus_def)
  have "om ! (np + i) \<noteq> None" if i: "i < ?n - np" for i
  proof -
    have "om ! (np + i) = ?b ! (np + i)" using R1 i inv by simp
    then show ?thesis using inv i by simp
  qed
  then have "\<exists>om2 nm2 pr3. CopyOrMoveElements T om np nm (np + 1) (?n - np) pr2
          = Returns (om2, nm2, pr3) () \<and> countdown pr3 = None"
    using k2 R1 inv assms(3) nb cap by (intro CopyOrMoveElements_never) auto
  then obtain om2 nm2 pr3 where
    c2: "CopyOrMoveElements T om np nm (np + 1) (size_t_minus ?n np) pr2 = Returns (om2, nm2, pr3) ()"
    and k3: "countdown pr3 = None"
    using sm by auto
  show ?thesis
    unfolding Emplace_realloc_def Let_def nat_int c_def [symmetric] nb_def [symmetric]
    using lt k c1 c2 k3 by simp
qed

lemma Emplace_end_Returns:
  assumes "VectorInv v" "m_size v < m_capacity (m_data v)"
    "Emplace_end T v np a pr = Returns (v', pr') r"
  shows "0 \<le> np \<and> r = nat np \<and> m_size v' = m_size v + 1 \<and>
         elements v' = elements v @ [init_value a] \<and> VectorInv v'"
proof -
  let ?b = "m_buffer (m_data v)"
  let ?n = "m_size v"
  have inv: "length ?b = m_capacity (m_data v)" "?n \<le> m_capacity (m_data v)"
    "\<forall>i<?n. ?b ! i \<noteq> None"
    "\<forall>i<m_capacity (m_data v). ?n \<le> i \<longrightarrow> ?b ! i = None"
    using assms(1) by (simp_all add: VectorInv_iff)
  from assms(2,3) inv have
    v': "v' = (with_buffer v (?b[?n := Some (init_value a)]))\<lparr>m_size := ?n + 1\<rparr>" and
    r: "0 \<le> np \<and> r = nat np"
    by (auto simp: Emplace_end_def Let_def split: if_splits sum.splits)
  have I: "VectorInv v'"
    unfolding VectorInv_iff v' elements_with_buffer
    using inv assms(2) by (auto simp: nth_list_update)
  have el: "elements v' = elements v @ [init_value a]"
    unfolding v' elements_def elements_with_buffer
    using inv assms(2) by (simp add: take_Suc_conv_app_nth)
  show ?thesis using v' r I el by (simp add: elements_with_buffer)
qed

lemma Emplace_end_never:
  assumes "m_size v < length (m_buffer (m_data v))" "countdown pr = None"
  shows "\<exists>v' pr'. Emplace_end T v (int np) a pr = Returns (v', pr') np \<and> countdown pr' = None"
  using construct_never_countdown [OF assms(2), of T a] assms(1)
  by (auto simp: Emplace_end_def Let_def)

lemma Emplace_shift_Returns:
  assumes "VectorInv v" "m_size v < m_capacity (m_data v)" "np < m_size v"
    "Emplace_shift T v (int np) a pr = Returns (v', pr') r"
  shows "r = np \<and> m_size v' = m_size v + 1 \<and>
         elements v' = take np (elements v) @ [init_value a] @ drop np (elements v) \<and>
         VectorInv v'"
proof -
  let ?b = "m_buffer (m_data v)"
  let ?n = "m_size v"
  let ?x = "init_value a"
  have inv: "length ?b = m_capacity (m_data v)" "?n \<le> m_capacity (m_data v)"
    "\<forall>i<?n. ?b ! i \<noteq> None"
    using assms(1) by (simp_all add: VectorInv_iff)
  have raw0: "\<forall>i<m_capacity (m_data v). ?n \<le> i \<longrightarrow> ?b ! i = None"
    using assms(1) by (simp add: VectorInv_iff)
  have c0: "0 < ?n \<and> ?n < length ?b" and c1: "np \<le> ?n - 1"
    using assms(2,3) inv by simp_all
  obtain l where l: "?b ! (?n - 1) = Some l"
    using inv assms(3) by (metis c0 diff_less not_None_eq zero_less_one)
  define buf1 where "buf1 = ?b[?n - 1 := Some (moved_from T l), ?n := Some l]"
  from assms(4) obtain pr1 where k: "construct T a pr = Inr pr1"
    by (cases "construct T a pr") (auto simp: Emplace_shift_def Let_def)
  from assms(4) k c0 l obtain pr2 where m: "move_construct T l pr1 = Inr pr2"
    by (cases "move_construct T l pr1") (auto simp: Emplace_shift_def Let_def)
  from assms(4) k c0 c1 l m obtain buf2 pr3 where
    mb: "move_backward T buf1 np (?n - 1 - np) ?n pr2 = Returns (buf2, pr3) ()"
    unfolding buf1_def
    by (cases "move_backward T (?b[?n - 1 := Some (moved_from T l), ?n := Some l]) np (?n - 1 - np) ?n pr2")
      (auto simp: Emplace_shift_def Let_def)
  from assms(4) k c0 c1 l m mb obtain y where y: "buf2 ! np = Some y"
    unfolding buf1_def
    by (cases "buf2 ! np") (auto simp: Emplace_shift_def Let_def)
  from assms(4) k c0 c1 l m mb y obtain pr4 where
    ma: "may_throw (MoveAssign ?x) pr3 = Inr pr4"
    unfolding buf1_def
    by (cases "may_throw (MoveAssign ?x) pr3") (auto simp: Emplace_shift_def Let_def)
  from assms(4) k c0 c1 l m mb y ma have
    v': "v' = (with_buffer v (buf2[np := Some ?x]))\<lparr>m_size := ?n + 1\<rparr>" and r: "r = np"
    unfolding buf1_def by (auto simp: Emplace_shift_def Let_def)
  have eq: "np + (?n - 1 - np) + 1 = ?n" using assms(3) by simp
  have mb': "move_backward T buf1 np (?n - 1 - np) (np + (?n - 1 - np) + 1) pr2 = Returns (buf2, pr3) ()"
    using mb by (simp only: eq)
  note MB = move_backward_Returns [OF mb']
  have len1: "length buf1 = length ?b" by (simp add: buf1_def)
  have len2: "length buf2 = length ?b" using MB len1 by simp
  let ?b3 = "buf2[np := Some ?x]"
  have low: "?b3 ! i = ?b ! i" if i: "i < np" for i
  proof -
    have "?b3 ! i = buf2 ! i" using i by simp
    also have "\<dots> = buf1 ! i" using MB i len1 assms(3) c0 by simp
    also have "\<dots> = ?b ! i" using i assms(3) by (simp add: buf1_def)
    finally show ?thesis .
  qed
  have new: "?b3 ! np = Some ?x" using len2 assms(3) c0 by simp
  have high: "?b3 ! (i + 1) = ?b ! i" if i: "np \<le> i" "i < ?n" for i
  proof (cases "i = ?n - 1")
    case True
    have "?b3 ! ?n = buf2 ! ?n" using assms(3) by simp
    also have "\<dots> = buf1 ! ?n" using MB len1 c0 assms(3) by simp
    also have "\<dots> = Some l" using c0 by (simp add: buf1_def)
    finally show ?thesis using True l c0 by simp
  next
    case False
    then have k: "i - np < ?n - 1 - np" using i by simp
    then obtain z where z: "buf1 ! (np + (i - np)) = Some z" "buf2 ! (np + (i - np) + 1) = Some z"
      using MB by blast
    have "?b3 ! (i + 1) = buf2 ! (i + 1)" using i by simp
    also have "\<dots> = buf1 ! i" using z i by simp
    also have "\<dots> = ?b ! i" using False i by (simp add: buf1_def)
    finally show ?thesis .
  qed
  have raw: "?b3 ! j = None" if j: "?n + 1 \<le> j" "j < length ?b" for j
  proof -
    have "?b3 ! j = buf2 ! j" using j assms(3) by simp
    also have "\<dots> = buf1 ! j" using MB len1 j assms(3) by simp
    also have "\<dots> = ?b ! j" using j by (simp add: buf1_def)
    finally show ?thesis using raw0 inv j by simp
  qed
  have np: "np \<le> ?n" using assms(3) by simp
  have "VectorInv v' \<and> elements v' = take np (elements v) @ [?x] @ drop np (elements v)"
  proof (rule inserted_buffer [OF inv np])
    show "m_size v' = ?n + 1" using v' by (simp add: elements_with_buffer)
    show "length (m_buffer (m_data v')) = m_capacity (m_data v')"
      using v' len2 inv by (simp add: elements_with_buffer)
    show "?n < m_capacity (m_data v')" using v' assms(2) by (simp add: elements_with_buffer)
    show "\<forall>i<np. m_buffer (m_data v') ! i = ?b ! i"
      using low unfolding v' elements_with_buffer by blast
    show "m_buffer (m_data v') ! np = Some ?x"
      using new unfolding v' elements_with_buffer .
    show "\<forall>i. np \<le> i \<and> i < ?n \<longrightarrow> m_buffer (m_data v') ! (i + 1) = ?b ! i"
      using high unfolding v' elements_with_buffer by blast
    show "\<forall>j<m_capacity (m_data v'). ?n + 1 \<le> j \<longrightarrow> m_buffer (m_data v') ! j = None"
      using raw inv unfolding v' elements_with_buffer by simp
  qed
  then show ?thesis using r v' by (simp add: elements_with_buffer)
qed

lemma Emplace_shift_never:
  assumes "VectorInv v" "m_size v < m_capacity (m_data v)" "np < m_size v" "countdown pr = None"
  shows "\<exists>v' pr'. Emplace_shift T v (int np) a pr = Returns (v', pr') np \<and>
           countdown pr' = None"
proof -
  let ?b = "m_buffer (m_data v)"
  let ?n = "m_size v"
  let ?x = "init_value a"
  have inv: "length ?b = m_capacity (m_data v)" "?n \<le> m_capacity (m_data v)"
    "\<forall>i<?n. ?b ! i \<noteq> None"
    using assms(1) by (simp_all add: VectorInv_iff)
  have c0: "0 < ?n \<and> ?n < length ?b" and c1: "np \<le> ?n - 1"
    using assms(2,3) inv by simp_all
  obtain l where l: "?b ! (?n - 1) = Some l"
    using inv assms(3) by (metis c0 diff_less not_None_eq zero_less_one)
  define buf1 where "buf1 = ?b[?n - 1 := Some (moved_from T l), ?n := Some l]"
  from construct_never_countdown [OF assms(4), of T a] obtain pr1 where
    k: "construct T a pr = Inr pr1" and k1: "countdown pr1 = None" by blast
  have m: "move_construct T l pr1 = Inr (no_throw (MoveCtor l) pr1)"
    using k1 by (rule move_construct_never)
  have eq: "np + (?n - 1 - np) + 1 = ?n" using assms(3) by simp
  have len1: "length buf1 = length ?b" by (simp add: buf1_def)
  have live1: "buf1 ! (np + i) \<noteq> None" if i: "i \<le> ?n - 1 - np" for i
  proof (cases "np + i = ?n - 1")
    case True
    have "?n - 1 \<noteq> ?n" "?n - 1 < length ?b" using c0 by arith+
    then have "buf1 ! (?n - 1) = Some (moved_from T l)" by (simp add: buf1_def)
    then show ?thesis using True by simp
  next
    case False
    have "np + i \<noteq> ?n" using i assms(3) by arith
    then have "buf1 ! (np + i) = ?b ! (np + i)" using False by (simp add: buf1_def)
    moreover have "np + i < ?n" using i assms(3) by arith
    ultimately show ?thesis using inv by simp
  qed
  have "\<exists>buf2 pr3. move_backward T buf1 np (?n - 1 - np) (np + (?n - 1 - np) + 1)
            (no_throw (MoveCtor l) pr1) = Returns (buf2, pr3) () \<and> countdown pr3 = None"
    using k1 len1 c0 assms(3) live1 by (intro move_backward_never) auto
  then obtain buf2 pr3 where
    mb': "move_backward T buf1 np (?n - 1 - np) (np + (?n - 1 - np) + 1)
            (no_throw (MoveCtor l) pr1) = Returns (buf2, pr3) ()" and
    k3: "countdown pr3 = None" by blast
  have mb: "move_backward T buf1 np (?n - 1 - np) ?n (no_throw (MoveCtor l) pr1) = Returns (buf2, pr3) ()"
    using mb' by (simp only: eq)
  note MB = move_backward_Returns [OF mb']
  have "buf2 ! np \<noteq> None"
  proof (cases "?n - 1 - np")
    case 0
    then have "buf2 = buf1" using MB by simp
    then show ?thesis using live1 [of 0] by simp
  next
    case (Suc j)
    then show ?thesis using MB by simp
  qed
  then obtain y where y: "buf2 ! np = Some y" by auto
  have ma: "may_throw (MoveAssign ?x) pr3 = Inr (no_throw (MoveAssign ?x) pr3)"
    using k3 by (rule may_throw_never)
  show ?thesis
    using k c0 c1 l m mb y ma k3 unfolding buf1_def
    by (simp add: Emplace_shift_def Let_def)
qed

lemma to_int_le: "to_int pos \<le> int pos"
proof -
  have "(int pos + 2 ^ 31) mod 2 ^ 32 \<le> int pos + 2 ^ 31"
    by (rule zmod_le_nonneg_dividend) simp
  then show ?thesis by (simp add: to_int_def)
qed

lemma Emplace_nonneg:
  assumes "Emplace T v pos a pr = Returns (v', pr') r"
  shows "0 \<le> to_int pos"
proof (rule ccontr)
  assume "\<not> 0 \<le> to_int pos"
  then have neg: "to_int pos < 0" by simp
  have "Emplace_realloc T v (to_int pos) a pr \<noteq> Returns (v', pr') r"
    using neg by (simp add: Emplace_realloc_def Let_def)
  moreover have "Emplace_end T v (to_int pos) a pr \<noteq> Returns (v', pr') r"
    using neg by (auto simp: Emplace_end_def Let_def split: sum.splits)
  moreover have "Emplace_shift T v (to_int pos) a pr \<noteq> Returns (v', pr') r"
    using neg by (auto simp: Emplace_shift_def Let_def split: sum.splits option.splits)
  ultimately show False using assms by (auto simp: Emplace_def Let_def split: if_splits)
qed

lemma Emplace_Returns:
  assumes "VectorInv v" "pos \<le> m_size v" "Emplace T v pos a pr = Returns (v', pr') r"
    "fits T (if m_size v = 0 then 1 else m_size v * 2)"
  shows "0 \<le> to_int pos \<and> r = nat (to_int pos) \<and> m_size v' = m_size v + 1 \<and> VectorInv v' \<and>
         elements v' =
           (if m_size v < m_capacity (m_data v) \<and> pos = m_size v
            then elements v @ [init_value a]
            else take (nat (to_int pos)) (elements v) @ [init_value a]
                   @ drop (nat (to_int pos)) (elements v))"
proof -
  let ?np = "nat (to_int pos)"
  have nn: "0 \<le> to_int pos" using assms(3) by (rule Emplace_nonneg)
  then have np: "int ?np = to_int pos" by simp
  have le: "?np \<le> pos" using to_int_le [of pos] nn by simp
  consider (realloc) "m_capacity (m_data v) \<le> m_size v"
    | (shift) "m_size v < m_capacity (m_data v)" "pos \<noteq> m_size v"
    | (at_end) "m_size v < m_capacity (m_data v)" "pos = m_size v"
    by linarith
  then show ?thesis
  proof cases
    case realloc
    then have "Emplace_realloc T v (int ?np) a pr = Returns (v', pr') r"
      using assms(3) np by (simp add: Emplace_def Let_def)
    moreover have "?np \<le> m_size v" using le assms(2) by simp
    ultimately show ?thesis
      using Emplace_realloc_Returns [OF assms(1) realloc _ _ assms(4)] nn realloc by auto
  next
    case shift
    then have "Emplace_shift T v (int ?np) a pr = Returns (v', pr') r"
      using assms(3) np by (simp add: Emplace_def Let_def)
    moreover have "?np < m_size v" using le assms(2) shift by simp
    ultimately show ?thesis
      using Emplace_shift_Returns [OF assms(1) shift(1)] nn shift by auto
  next
    case at_end
    then have "Emplace_end T v (to_int pos) a pr = Returns (v', pr') r"
      using assms(3) by (simp add: Emplace_def Let_def)
    then show ?thesis
      using Emplace_end_Returns [OF assms(1) at_end(1)] nn at_end by auto
  qed
qed

lemma Emplace_never:
  assumes "VectorInv v" "pos \<le> m_size v" "0 \<le> to_int pos" "countdown pr = None"
    "fits T (if m_size v = 0 then 1 else m_size v * 2)"
  shows "\<exists>v' pr'. Emplace T v pos a pr = Returns (v', pr') (nat (to_int pos)) \<and>
           countdown pr' = None"
proof -
  let ?np = "nat (to_int pos)"
  have le: "?np \<le> pos" using to_int_le [of pos] assms(3) by simp
  have np: "int ?np = to_int pos" using assms(3) by simp
  have len: "length (m_buffer (m_data v)) = m_capacity (m_data v)"
    using assms(1) by (simp add: VectorInv_iff)
  consider (realloc) "m_capacity (m_data v) \<le> m_size v"
    | (shift) "m_size v < m_capacity (m_data v)" "pos \<noteq> m_size v"
    | (at_end) "m_size v < m_capacity (m_data v)" "pos = m_size v"
    by linarith
  then show ?thesis
  proof cases
    case realloc
    have "?np \<le> m_size v" using le assms(2) by simp
    from Emplace_realloc_never [OF assms(1) realloc this assms(4,5), where a = a]
    show ?thesis using realloc np by (simp add: Emplace_def Let_def)
  next
    case shift
    have "?np < m_size v" using le assms(2) shift by simp
    from Emplace_shift_never [OF assms(1) shift(1) this assms(4), of T a]
    show ?thesis using shift np by (simp add: Emplace_def Let_def)
  next
    case at_end
    have "m_size v < length (m_buffer (m_data v))" using at_end len by simp
    from Emplace_end_never [OF this assms(4), of T ?np a]
    show ?thesis using at_end np by (simp add: Emplace_def Let_def)
  qed
qed

lemma VectorInv_vec: "length xs \<le> c \<Longrightarrow> VectorInv (vec xs c)"
  by (simp add: VectorInv_def vec_def list_all_length)

lemma elements_vec: "elements (vec xs c) = xs"
  by (simp add: elements_def vec_def comp_def)

lemma size_vec: "m_size (vec xs c) = length xs" "m_capacity (m_data (vec xs c)) = c"
  by (simp_all add: vec_def)

lemma to_int_2_32: "to_int (2 ^ 32) = 0" "to_int 4294967296 = 0"
  by (simp_all add: to_int_def)

lemma to_int_2_31: "to_int (2 ^ 31) = - (2 ^ 31)" "to_int 2147483648 = - 2147483648"
  by (simp_all add: to_int_def)

lemma Erase_undefined_at_2_31:
  "Erase T (vec (replicate (2 ^ 31 + 1) x) (2 ^ 31 + 1)) (2 ^ 31) pr = Undefined"
  by (simp add: Erase_def to_int_2_31)

subsection \<open>Insertion and removal at positions that fit an int\<close>

text \<open>
  For a position below \<open>2 ^ 31\<close> the conversion to \<^verbatim>\<open>int\<close> keeps the position, and
  \<^verbatim>\<open>Emplace\<close> and \<^verbatim>\<open>Erase\<close> insert and remove there, \<^verbatim>\<open>Emplace\<close> provided that the
  objects of the doubled capacity fit a block. The last lemma runs the scenario
  of the specification: two calls of \<^verbatim>\<open>PushBack\<close>, an \<^verbatim>\<open>Insert\<close> at index 1 and an
  \<^verbatim>\<open>Erase\<close> at index 0.
\<close>

lemma Emplace_inserts:
  assumes "VectorInv v" "pos \<le> Size v" "pos < 2 ^ 31"
    "fits T (if Size v = 0 then 1 else Size v * 2)"
  shows "(\<forall>v' pr' r. Emplace T v pos a pr = Returns (v', pr') r \<longrightarrow>
            r = pos \<and> Size v' = Size v + 1 \<and>
            elements v' = take pos (elements v) @ [init_value a] @ drop pos (elements v) \<and>
            VectorInv v') \<and>
         (countdown pr = None \<longrightarrow> (\<exists>v' pr'. Emplace T v pos a pr = Returns (v', pr') pos))"
proof -
  have ti: "to_int pos = int pos" using assms(3) by (rule to_int_small)
  have le: "pos \<le> m_size v" using assms(2) by (simp add: Size_def)
  have f: "fits T (if m_size v = 0 then 1 else m_size v * 2)"
    using assms(4) unfolding Size_def .
  have len: "length (elements v) = m_size v"
    using assms(1) by (simp add: VectorInv_iff length_elements)
  have a: "r = pos \<and> Size v' = Size v + 1 \<and>
            elements v' = take pos (elements v) @ [init_value a] @ drop pos (elements v) \<and>
            VectorInv v'"
    if "Emplace T v pos a pr = Returns (v', pr') r" for v' pr' r
    using Emplace_Returns [OF assms(1) le that f] ti len by (auto simp: Size_def)
  have b: "\<exists>v' pr'. Emplace T v pos a pr = Returns (v', pr') pos" if "countdown pr = None"
    using Emplace_never [OF assms(1) le _ that f, where a = a] ti by auto
  show ?thesis using a b by blast
qed

lemma Erase_removes:
  assumes "VectorInv v" "pos < Size v" "pos < 2 ^ 31"
  shows "(\<forall>v' pr' r. Erase T v pos pr = Returns (v', pr') r \<longrightarrow>
            r = pos \<and> Size v' = Size v - 1 \<and>
            elements v' = take pos (elements v) @ drop (Suc pos) (elements v) \<and>
            VectorInv v') \<and>
         (countdown pr = None \<longrightarrow> (\<exists>v' pr'. Erase T v pos pr = Returns (v', pr') pos))"
proof -
  have ti: "to_int pos = int pos" using assms(3) by (rule to_int_small)
  have lt: "nat (to_int pos) < m_size v" using assms(2) ti by (simp add: Size_def)
  have a: "r = pos \<and> Size v' = Size v - 1 \<and>
            elements v' = take pos (elements v) @ drop (Suc pos) (elements v) \<and>
            VectorInv v'"
    if "Erase T v pos pr = Returns (v', pr') r" for v' pr' r
    using Erase_Returns [OF assms(1) that] ti by (simp add: Size_def)
  have b: "\<exists>v' pr'. Erase T v pos pr = Returns (v', pr') pos" if "countdown pr = None"
    using Erase_never [OF assms(1) that _ lt, of T] ti by simp
  show ?thesis using a b by blast
qed

lemma scenario:
  "PushBack_all nothrow_type Vector_default [CopyOf 1, CopyOf 2] never_fails
     = Returns (vec [1, 2] 2, \<lparr>countdown = None, trace = [CopyCtor 1, CopyCtor 2, MoveCtor 1, Dtor 0]\<rparr>) ()"
  "Insert nothrow_type (vec [1, 2] 2) 1 5 never_fails
     = Returns (vec [1, 5, 2] 4,
         \<lparr>countdown = None, trace = [CopyCtor 5, MoveCtor 1, Dtor 0, MoveCtor 2, Dtor 0]\<rparr>) 1"
  "Erase nothrow_type (vec [1, 5, 2] 4) 0 never_fails
     = Returns (vec [5, 2] 4,
         \<lparr>countdown = None, trace = [MoveAssign 5, MoveAssign 2, Dtor 0]\<rparr>) 0"
  by (simp_all add: run_defs)

lemma Vector_sized_Returns:
  assumes "Vector_sized T n pr = Returns pr' v"
  shows "VectorInv v \<and> m_size v = n \<and> m_capacity (m_data v) = n \<and>
         elements v = replicate n (value_initialized T)"
proof -
  from assms obtain buf where
    vc0: "uninitialized_value_construct_n T (Allocate T n) 0 n pr = Returns (buf, pr') ()" and
    v: "v = \<lparr>m_data = \<lparr>m_buffer = buf, m_capacity = n\<rparr>, m_size = n\<rparr>"
    by (auto simp: Vector_sized_def RawMemory_new_def Let_def
        split: outcome.splits prod.splits)
  have "n \<le> length (Allocate T n)"
    using uninitialized_value_construct_n_Returns [OF vc0] by (cases n) simp_all
  then have "Allocate T n = replicate n None"
    by (rule Allocate_full)
  then have vc: "uninitialized_value_construct_n T (replicate n None) 0 n pr = Returns (buf, pr') ()"
    using vc0 by simp
  note V = uninitialized_value_construct_n_Returns [OF vc]
  have all: "buf ! i = Some (value_initialized T)" if "i < n" for i
    using V that by force
  have "VectorInv v" unfolding VectorInv_iff v using V all by simp
  moreover have "elements v = replicate n (value_initialized T)"
    unfolding v elements_def using V all by (intro nth_equalityI) simp_all
  ultimately show ?thesis using v by simp
qed

lemma Vector_copy_VectorInv:
  assumes "Vector_copy T other pr = Returns pr' c"
  shows "VectorInv c"
  unfolding VectorInv_iff using Vector_copy_Returns [OF assms] by force

lemma PopBack_VectorInv:
  assumes "VectorInv v" "PopBack v pr = Returns (v', pr') u"
  shows "VectorInv v'"
proof (cases "0 < m_size v")
  case True
  note P = PopBack_Returns [OF assms(2) True]
  have inv: "length (m_buffer (m_data v)) = m_capacity (m_data v)"
    "m_size v \<le> m_capacity (m_data v)" "\<forall>i<m_size v. m_buffer (m_data v) ! i \<noteq> None"
    "\<forall>i<m_capacity (m_data v). m_size v \<le> i \<longrightarrow> m_buffer (m_data v) ! i = None"
    using assms(1) by (simp_all add: VectorInv_iff)
  show ?thesis
    unfolding VectorInv_iff
  proof (intro conjI allI impI)
    show "length (m_buffer (m_data v')) = m_capacity (m_data v')" using P inv by simp
    show "m_size v' \<le> m_capacity (m_data v')" using P inv by simp
    show "m_buffer (m_data v') ! i \<noteq> None" if "i < m_size v'" for i
    proof -
      have "i < m_size v - 1" using that P by simp
      then have "m_buffer (m_data v') ! i = m_buffer (m_data v) ! i \<and> i < m_size v"
        using P inv by simp
      then show ?thesis using inv by simp
    qed
    show "m_buffer (m_data v') ! i = None" if "i < m_capacity (m_data v')" "m_size v' \<le> i" for i
    proof (cases "i = m_size v - 1")
      case True
      then show ?thesis using P by simp
    next
      case False
      then have "m_buffer (m_data v') ! i = m_buffer (m_data v) ! i \<and> m_size v \<le> i"
        using that P inv by simp
      then show ?thesis using that P inv by simp
    qed
  qed
next
  case False
  then have "v' = v" using assms(2) by (simp add: PopBack_def)
  then show ?thesis using assms(1) by simp
qed

lemma EmplaceBack_Emplace:
  "EmplaceBack T v a pr = Returns (v', pr') r \<Longrightarrow> Emplace T v (m_size v) a pr = Returns (v', pr') r"
  by (auto simp: EmplaceBack_def split: outcome.splits if_splits prod.splits)

lemma PushBack_Emplace:
  "PushBack T v a pr = Returns (v', pr') u \<Longrightarrow> \<exists>r. Emplace T v (m_size v) a pr = Returns (v', pr') r"
  by (auto simp: PushBack_def split: outcome.splits dest: EmplaceBack_Emplace)

subsection \<open>Appending without failure\<close>

text \<open>
  While the size is below \<open>2 ^ 31\<close>, no element operation throws and the objects of the
  doubled capacity fit a block, \<^verbatim>\<open>PushBack\<close> returns.
\<close>

lemma PushBack_never:
  assumes "VectorInv v" "m_size v < 2 ^ 31" "countdown pr = None"
    "fits T (if m_size v = 0 then 1 else m_size v * 2)"
  shows "\<exists>v' pr'. PushBack T v a pr = Returns (v', pr') () \<and> countdown pr' = None \<and>
           VectorInv v' \<and> m_size v' = m_size v + 1"
proof -
  have ti: "to_int (m_size v) = int (m_size v)" using assms(2) by (rule to_int_small)
  from Emplace_never [OF assms(1) _ _ assms(3,4), where pos = "m_size v" and a = a] ti
  obtain v' pr' where
    e: "Emplace T v (m_size v) a pr = Returns (v', pr') (m_size v)" and c: "countdown pr' = None"
    by auto
  note E = Emplace_Returns [OF assms(1) _ e assms(4)]
  have inv': "VectorInv v'" and sz: "m_size v' = m_size v + 1" using E by simp_all
  then have "m_buffer (m_data v') ! m_size v \<noteq> None \<and> m_size v < length (m_buffer (m_data v'))"
    by (simp add: VectorInv_iff)
  then have "at v' (m_size v) \<noteq> None" by (simp add: at_def)
  then have "PushBack T v a pr = Returns (v', pr') ()"
    using e by (simp add: PushBack_def EmplaceBack_def)
  then show ?thesis using c inv' sz by blast
qed

lemma PushBack_all_never:
  "VectorInv v \<Longrightarrow> m_size v + length as \<le> 2 ^ 31 \<Longrightarrow> countdown pr = None \<Longrightarrow>
   fits T (2 ^ 32) \<Longrightarrow>
   \<exists>v' pr'. PushBack_all T v as pr = Returns (v', pr') ()"
proof (induction as arbitrary: v pr)
  case Nil
  then show ?case by simp
next
  case (Cons a as)
  have lt: "m_size v < 2 ^ 31" using Cons.prems(2) by simp
  then have "(if m_size v = 0 then 1 else m_size v * 2) \<le> (2::nat) ^ 32" by simp
  with Cons.prems(4) have f: "fits T (if m_size v = 0 then 1 else m_size v * 2)"
    by (rule fits_mono)
  from PushBack_never [OF Cons.prems(1) lt Cons.prems(3) f, where a = a] obtain v1 pr1 where
    step: "PushBack T v a pr = Returns (v1, pr1) ()" and c1: "countdown pr1 = None" and
    inv1: "VectorInv v1" and sz1: "m_size v1 = m_size v + 1"
    by blast
  have "m_size v1 + length as \<le> 2 ^ 31" using sz1 Cons.prems(2) by simp
  from Cons.IH [OF inv1 this c1 Cons.prems(4)] show ?case using step by simp
qed

subsection \<open>Exceptions during relocation\<close>

text \<open>
  For an element type that relocates by a move that cannot throw or by copy, an
  exception leaves the source buffer of \<^verbatim>\<open>CopyOrMoveElements\<close> as it was. So \<^verbatim>\<open>Reserve\<close>,
  the reallocating \<^verbatim>\<open>Emplace\<close> at the first or the last position, and \<^verbatim>\<open>PushBack\<close> leave
  the vector unchanged when they leave by an exception.
\<close>

lemma uninitialized_copy_from_Throws:
  "uninitialized_copy_from src s n dst result d pr = Throws (src', dst', pr') \<Longrightarrow> src' = src"
proof (induction n arbitrary: s d dst pr)
  case 0
  then show ?case by simp
next
  case (Suc n)
  from Suc.prems have rng: "s < length src" "d < length dst"
    by (auto split: if_splits)
  from Suc.prems rng obtain x where x: "src ! s = Some x"
    by (cases "src ! s") auto
  show ?case
  proof (cases "may_throw (CopyCtor x) pr")
    case (Inl pr1)
    then show ?thesis using Suc.prems rng x by (auto split: option.splits)
  next
    case (Inr pr1)
    then have "uninitialized_copy_from src (Suc s) n (dst[d := Some x]) result (Suc d) pr1
                 = Throws (src', dst', pr')"
      using Suc.prems rng x by simp
    then show ?thesis by (rule Suc.IH)
  qed
qed

lemma uninitialized_copy_n_Throws:
  "uninitialized_copy_n src s n dst d pr = Throws (src', dst', pr') \<Longrightarrow> src' = src"
  unfolding uninitialized_copy_n_def by (rule uninitialized_copy_from_Throws)

lemma uninitialized_move_from_nothrow:
  "nothrow_move_constructible T \<Longrightarrow> uninitialized_move_from T src s n dst result d pr \<noteq> Throws st"
proof (induction n arbitrary: s d src dst pr st)
  case 0
  then show ?case by simp
next
  case (Suc n)
  show ?case
  proof (cases "s < length src \<and> d < length dst")
    case False
    then show ?thesis by auto
  next
    case True
    show ?thesis
    proof (cases "src ! s")
      case None
      then show ?thesis using True by simp
    next
      case (Some x)
      have "uninitialized_move_from T (src[s := Some (moved_from T x)]) (Suc s) n (dst[d := Some x])
              result (Suc d) (no_throw (MoveCtor x) pr) \<noteq> Throws st'" for st'
        using Suc.IH [OF Suc.prems] .
      then show ?thesis using True Some Suc.prems
        by (auto simp: move_construct_def split: outcome.splits)
    qed
  qed
qed

lemma uninitialized_move_n_nothrow:
  "nothrow_move_constructible T \<Longrightarrow> uninitialized_move_n T src s n dst d pr \<noteq> Throws st"
  unfolding uninitialized_move_n_def by (rule uninitialized_move_from_nothrow)

lemma CopyOrMoveElements_Throws:
  assumes "nothrow_move_constructible T \<or> copy_constructible T"
    "CopyOrMoveElements T old s new d n pr = Throws (om, nm, pr')"
  shows "om = old"
proof (cases "nothrow_move_constructible T")
  case True
  then have "uninitialized_move_n T old s n new d pr \<noteq> Throws (om, nm, pr')"
    by (rule uninitialized_move_n_nothrow)
  then show ?thesis using assms(2) True
    by (auto simp: CopyOrMoveElements_def split: outcome.splits option.splits)
next
  case False
  then have "uninitialized_copy_n old s n new d pr = Throws (om, nm, pr')"
    using assms by (auto simp: CopyOrMoveElements_def split: outcome.splits option.splits)
  then show ?thesis using uninitialized_copy_n_Throws by blast
qed

lemma CopyOrMoveElements_zero:
  "CopyOrMoveElements T old s new d 0 pr = Returns (old, new, pr) ()"
  by (simp add: CopyOrMoveElements_def)

lemma with_buffer_same: "with_buffer v (m_buffer (m_data v)) = v"
  by (simp add: with_buffer_def)

lemma Reserve_strong_guarantee:
  assumes "nothrow_move_constructible T \<or> copy_constructible T"
    "Reserve T v n pr = Throws (v', pr')"
  shows "v' = v"
proof -
  from assms(2) obtain om nm where
    "CopyOrMoveElements T (m_buffer (m_data v)) 0 (m_buffer (RawMemory_new T n)) 0 (m_size v) pr
       = Throws (om, nm, pr')" and v': "v' = with_buffer v om"
    by (auto simp: Reserve_def Let_def split: if_splits outcome.splits)
  then have "om = m_buffer (m_data v)"
    using CopyOrMoveElements_Throws [OF assms(1)] by blast
  then show ?thesis using v' by (simp add: with_buffer_same)
qed

lemma Emplace_realloc_strong_guarantee:
  assumes "nothrow_move_constructible T \<or> copy_constructible T"
    "np = 0 \<or> np = m_size v"
    "Emplace_realloc T v (int np) a pr = Throws (v', pr')"
  shows "v' = v"
proof -
  let ?b = "m_buffer (m_data v)"
  define c where "c = (if m_size v = 0 then 1 else m_size v * 2)"
  define nb where "nb = (m_buffer (RawMemory_new T c))[np := Some (init_value a)]"
  have lt: "np < length (m_buffer (RawMemory_new T c :: 'a RawMemory))"
    using assms(3) unfolding Emplace_realloc_def Let_def nat_int c_def [symmetric]
    by (auto split: if_splits)
  show ?thesis
  proof (cases "construct T a pr")
    case (Inl pr1)
    then show ?thesis
      using assms(3) lt unfolding Emplace_realloc_def Let_def nat_int c_def [symmetric] by simp
  next
    case (Inr pr1)
    show ?thesis
    proof (cases "CopyOrMoveElements T ?b 0 nb 0 np pr1")
      case Undefined
      then show ?thesis
        using assms(3) lt Inr unfolding Emplace_realloc_def Let_def nat_int c_def [symmetric] nb_def by simp
    next
      case (Throws st)
      obtain om nm pr2 where st: "st = (om, nm, pr2)" by (cases st) auto
      have "om = ?b" using CopyOrMoveElements_Throws [OF assms(1)] Throws st by blast
      moreover have "v' = with_buffer v om"
        using assms(3) lt Inr Throws st
        unfolding Emplace_realloc_def Let_def nat_int c_def [symmetric] nb_def
        by (auto split: option.splits)
      ultimately show ?thesis by (simp add: with_buffer_same)
    next
      case (Returns st u)
      obtain om nm pr2 where st: "st = (om, nm, pr2)" by (cases st) auto
      have om: "om = ?b \<or> np = m_size v"
        using assms(2) Returns st by (auto simp: CopyOrMoveElements_zero)
      show ?thesis
      proof (cases "CopyOrMoveElements T om np nm (np + 1) (size_t_minus (m_size v) np) pr2")
        case Undefined
        then show ?thesis
          using assms(3) lt Inr Returns st
          unfolding Emplace_realloc_def Let_def nat_int c_def [symmetric] nb_def by simp
      next
        case R2: (Returns st2 u2)
        obtain om2 nm2 pr3 where "st2 = (om2, nm2, pr3)" by (cases st2) auto
        then show ?thesis
          using assms(3) lt Inr Returns st R2
          unfolding Emplace_realloc_def Let_def nat_int c_def [symmetric] nb_def by simp
      next
        case T2: (Throws st2)
        obtain om2 nm2 pr3 where st2: "st2 = (om2, nm2, pr3)" by (cases st2) auto
        have ne: "np \<noteq> m_size v"
        proof
          assume "np = m_size v"
          then have "size_t_minus (m_size v) np = 0" by (simp add: size_t_minus_def)
          then show False using T2 by (simp add: CopyOrMoveElements_zero)
        qed
        then have "om = ?b" using om by simp
        moreover have "om2 = om" using CopyOrMoveElements_Throws [OF assms(1)] T2 st2 by blast
        moreover have "v' = with_buffer v om2"
          using assms(3) lt Inr Returns st T2 st2
          unfolding Emplace_realloc_def Let_def nat_int c_def [symmetric] nb_def
          by (auto split: option.splits)
        ultimately show ?thesis by (simp add: with_buffer_same)
      qed
    qed
  qed
qed

lemma PushBack_strong_guarantee:
  assumes "nothrow_move_constructible T \<or> copy_constructible T" "m_size v < 2 ^ 31"
    "PushBack T v a pr = Throws (v', pr')"
  shows "v' = v"
proof -
  have ti: "to_int (m_size v) = int (m_size v)" using assms(2) by (rule to_int_small)
  from assms(3) have "Emplace T v (m_size v) a pr = Throws (v', pr')"
    by (auto simp: PushBack_def EmplaceBack_def split: outcome.splits if_splits)
  then consider "Emplace_realloc T v (int (m_size v)) a pr = Throws (v', pr')"
    | "Emplace_end T v (int (m_size v)) a pr = Throws (v', pr')"
    using ti by (auto simp: Emplace_def Let_def split: if_splits)
  then show ?thesis
  proof cases
    case 1
    then show ?thesis using Emplace_realloc_strong_guarantee [OF assms(1)] by blast
  next
    case 2
    then show ?thesis by (auto simp: Emplace_end_def Let_def split: if_splits sum.splits)
  qed
qed

text \<open>
  A run of \<^verbatim>\<open>Reserve\<close> that fails: the third copy throws, the two copies built so far are
  destroyed, the first one first, and the vector is as it was.
\<close>

lemma Reserve_failure_run:
  "Reserve throwing_type (vec [1, 2, 3] 3) 5 (fails_after 2)
     = Throws (vec [1, 2, 3] 3,
               \<lparr>countdown = None, trace = [CopyCtor 1, CopyCtor 2, Dtor 1, Dtor 2]\<rparr>)"
  by (simp add: run_defs)

lemma Reserve_empty:
  assumes "m_size v = 0" "m_capacity (m_data v) < n" "fits T n"
  shows "Reserve T v n pr = Returns (vec [] n, pr) ()"
proof -
  have "v\<lparr>m_data := (m_data v)\<lparr>m_buffer := replicate n None, m_capacity := n\<rparr>\<rparr> = vec [] n"
    using assms(1) by (cases v, cases "m_data v") (simp add: vec_def)
  then show ?thesis
    using assms
    by (simp add: Reserve_def Let_def CopyOrMoveElements_zero RawMemory_Swap_def
        RawMemory_new_fits)
qed

subsection \<open>The state invariant after a normal return\<close>

lemma invariant_on_return:
  "VectorInv Vector_default"
  "Vector_sized T n pr = Returns pr' w \<Longrightarrow> VectorInv w"
  "Vector_copy T v pr = Returns pr' w \<Longrightarrow> VectorInv w"
  "VectorInv v \<Longrightarrow> fits T n \<Longrightarrow> Reserve T v n pr = Returns (v', pr') u \<Longrightarrow> VectorInv v'"
  "VectorInv v \<Longrightarrow> fits T n \<Longrightarrow> Resize T v n pr = Returns (v', pr') u \<Longrightarrow> VectorInv v'"
  "VectorInv v \<Longrightarrow> fits T (if Size v = 0 then 1 else Size v * 2) \<Longrightarrow>
     PushBack T v a pr = Returns (v', pr') u \<Longrightarrow> VectorInv v'"
  "VectorInv v \<Longrightarrow> fits T (if Size v = 0 then 1 else Size v * 2) \<Longrightarrow>
     EmplaceBack T v a pr = Returns (v', pr') r \<Longrightarrow> VectorInv v'"
  "VectorInv v \<Longrightarrow> PopBack v pr = Returns (v', pr') u \<Longrightarrow> VectorInv v'"
  "VectorInv v \<Longrightarrow> fits T (if Size v = 0 then 1 else Size v * 2) \<Longrightarrow> pos \<le> Size v \<Longrightarrow>
     Emplace T v pos a pr = Returns (v', pr') r \<Longrightarrow> VectorInv v'"
  "VectorInv v \<Longrightarrow> fits T (if Size v = 0 then 1 else Size v * 2) \<Longrightarrow> pos \<le> Size v \<Longrightarrow>
     Insert T v pos x pr = Returns (v', pr') r \<Longrightarrow> VectorInv v'"
  "VectorInv v \<Longrightarrow> fits T (if Size v = 0 then 1 else Size v * 2) \<Longrightarrow> pos \<le> Size v \<Longrightarrow>
     Insert_move T v pos x pr = Returns (v', pr') r \<Longrightarrow> VectorInv v'"
  "VectorInv v \<Longrightarrow> Erase T v pos pr = Returns (v', pr') r \<Longrightarrow> VectorInv v'"
proof -
  show "VectorInv Vector_default"
    by (simp add: VectorInv_def Vector_default_def RawMemory_default_def)
  show "Vector_sized T n pr = Returns pr' w \<Longrightarrow> VectorInv w"
    using Vector_sized_Returns by blast
  show "Vector_copy T v pr = Returns pr' w \<Longrightarrow> VectorInv w"
    by (rule Vector_copy_VectorInv)
  show "VectorInv v \<Longrightarrow> fits T n \<Longrightarrow> Reserve T v n pr = Returns (v', pr') u \<Longrightarrow> VectorInv v'"
    using Reserve_VectorInv by blast
  show "VectorInv v \<Longrightarrow> fits T n \<Longrightarrow> Resize T v n pr = Returns (v', pr') u \<Longrightarrow> VectorInv v'"
    using Resize_VectorInv by (cases u) blast
  have E: "VectorInv v'"
    if "VectorInv v" "fits T (if Size v = 0 then 1 else Size v * 2)" "pos \<le> Size v"
      "Emplace T v pos a pr = Returns (v', pr') r"
    for pos a r
  proof -
    have "fits T (if m_size v = 0 then 1 else m_size v * 2)" using that(2) unfolding Size_def .
    moreover have "pos \<le> m_size v" using that(3) by (simp add: Size_def)
    ultimately show ?thesis using Emplace_Returns [OF that(1) _ that(4)] by simp
  qed
  show "VectorInv v \<Longrightarrow> fits T (if Size v = 0 then 1 else Size v * 2) \<Longrightarrow>
     PushBack T v a pr = Returns (v', pr') u \<Longrightarrow> VectorInv v'"
    using E [of "m_size v" a] PushBack_Emplace [of T v a pr v' pr' u] by (auto simp: Size_def)
  show "VectorInv v \<Longrightarrow> fits T (if Size v = 0 then 1 else Size v * 2) \<Longrightarrow>
     EmplaceBack T v a pr = Returns (v', pr') r \<Longrightarrow> VectorInv v'"
    using E [of "m_size v" a r] EmplaceBack_Emplace [of T v a pr v' pr' r] by (auto simp: Size_def)
  show "VectorInv v \<Longrightarrow> PopBack v pr = Returns (v', pr') u \<Longrightarrow> VectorInv v'"
    by (rule PopBack_VectorInv)
  show "VectorInv v \<Longrightarrow> fits T (if Size v = 0 then 1 else Size v * 2) \<Longrightarrow> pos \<le> Size v \<Longrightarrow>
     Emplace T v pos a pr = Returns (v', pr') r \<Longrightarrow> VectorInv v'"
    by (rule E)
  show "VectorInv v \<Longrightarrow> fits T (if Size v = 0 then 1 else Size v * 2) \<Longrightarrow> pos \<le> Size v \<Longrightarrow>
     Insert T v pos x pr = Returns (v', pr') r \<Longrightarrow> VectorInv v'"
    unfolding Insert_def by (rule E)
  show "VectorInv v \<Longrightarrow> fits T (if Size v = 0 then 1 else Size v * 2) \<Longrightarrow> pos \<le> Size v \<Longrightarrow>
     Insert_move T v pos x pr = Returns (v', pr') r \<Longrightarrow> VectorInv v'"
    unfolding Insert_move_def by (rule E)
  show "VectorInv v \<Longrightarrow> Erase T v pos pr = Returns (v', pr') r \<Longrightarrow> VectorInv v'"
    using Erase_Returns by blast
qed

lemma invariant_on_return_two:
  assumes "VectorInv (s a)" "VectorInv (s b)"
  shows "VectorInv (Swap_at a b s a) \<and> VectorInv (Swap_at a b s b)"
    and "move_assign a b s pr = Returns (s', pr') u \<Longrightarrow> VectorInv (s' a) \<and> VectorInv (s' b)"
    and "copy_assign T a b s pr = Returns (s', pr') u \<Longrightarrow> VectorInv (s' a) \<and> VectorInv (s' b)"
    and "a \<noteq> b \<Longrightarrow> Vector_move a b s pr = Returns (s', pr') u \<Longrightarrow> VectorInv (s' a) \<and> VectorInv (s' b)"
proof -
  show sw: "VectorInv (Swap_at a b s a) \<and> VectorInv (Swap_at a b s b)"
    using assms by (cases "a = b") (simp_all add: Swap_at_self Swap_at_distinct)
  show "move_assign a b s pr = Returns (s', pr') u \<Longrightarrow> VectorInv (s' a) \<and> VectorInv (s' b)"
    using sw assms by (auto simp: move_assign_def split: if_splits)
  show "copy_assign T a b s pr = Returns (s', pr') u \<Longrightarrow> VectorInv (s' a) \<and> VectorInv (s' b)"
    using copy_assign_Returns [where a = a and b = b and s = s and s' = s'] assms
    by (cases "a = b") (auto simp: copy_assign_def)
  show "a \<noteq> b \<Longrightarrow> Vector_move a b s pr = Returns (s', pr') u \<Longrightarrow> VectorInv (s' a) \<and> VectorInv (s' b)"
    using assms
    by (auto simp: Vector_move_def Swap_at_distinct VectorInv_def Vector_default_def RawMemory_default_def)
qed

subsection \<open>Storage whose size in bytes wraps\<close>

text \<open>
  Construction at a slot behind the end of a block is undefined. \<^verbatim>\<open>Reserve\<close> on a
  non-empty vector relocates behind the end of the new block when that block has no
  room for an object, as the block for \<open>2 ^ 62\<close> objects of four bytes has.
\<close>

lemma uninitialized_copy_n_behind:
  "0 < n \<Longrightarrow> length dst \<le> d \<Longrightarrow> uninitialized_copy_n src s n dst d pr = Undefined"
  by (cases n) (simp_all add: uninitialized_copy_n_def)

lemma uninitialized_move_n_behind:
  "0 < n \<Longrightarrow> length dst \<le> d \<Longrightarrow> uninitialized_move_n T src s n dst d pr = Undefined"
  by (cases n) (simp_all add: uninitialized_move_n_def)

lemma uninitialized_value_construct_n_behind:
  "0 < n \<Longrightarrow> length buf \<le> s \<Longrightarrow> uninitialized_value_construct_n T buf s n pr = Undefined"
  by (cases n) (simp_all add: uninitialized_value_construct_n_def)

lemma CopyOrMoveElements_behind:
  "0 < n \<Longrightarrow> length nm \<le> d \<Longrightarrow> CopyOrMoveElements T om s nm d n pr = Undefined"
  by (simp add: CopyOrMoveElements_def uninitialized_copy_n_behind uninitialized_move_n_behind)

lemma Reserve_behind_block:
  assumes "0 < m_size v" "m_capacity (m_data v) < n" "m_buffer (RawMemory_new T n) = []"
  shows "Reserve T v n pr = Undefined"
  using assms by (simp add: Reserve_def Let_def CopyOrMoveElements_behind)

lemma RawMemory_new_wraps:
  "RawMemory_new four_byte_type (2 ^ 62) = \<lparr>m_buffer = [], m_capacity = 2 ^ 62\<rparr>"
  "RawMemory_new four_byte_type 4611686018427387904
     = \<lparr>m_buffer = [], m_capacity = 4611686018427387904\<rparr>"
  by (simp_all add: RawMemory_new_def Allocate_def four_byte_type_def)

subsection \<open>Growth while the size fits an int\<close>

text \<open>
  An append that returns, by \<^verbatim>\<open>Emplace\<close> at \<^verbatim>\<open>end()\<close>, \<^verbatim>\<open>EmplaceBack\<close> or \<^verbatim>\<open>PushBack\<close>, on a
  vector whose size equals its capacity leaves a capacity of twice the old one, and of 1
  when the old one was 0. After a non-empty sequence of \<^verbatim>\<open>PushBack\<close> calls that return,
  starting from a default-constructed vector, the capacity is a power of two that is at
  least the size and less than twice the size. A sequence of at most \<open>2 ^ 31\<close> calls does
  return when no element operation throws and \<open>2 ^ 32\<close> objects fit a block.
\<close>

lemma growth_below_int_max:
  "(Size v = Capacity v \<and> Emplace T v (Size v) a pr = Returns (v', pr') r
      \<longrightarrow> Capacity v' = (if Capacity v = 0 then 1 else 2 * Capacity v)) \<and>
   (Size v = Capacity v \<and> EmplaceBack T v a pr = Returns (v', pr') r
      \<longrightarrow> Capacity v' = (if Capacity v = 0 then 1 else 2 * Capacity v)) \<and>
   (Size v = Capacity v \<and> PushBack T v a pr = Returns (v', pr') ()
      \<longrightarrow> Capacity v' = (if Capacity v = 0 then 1 else 2 * Capacity v)) \<and>
   (PushBack_all T Vector_default as pr = Returns (w, pr'') () \<and> as \<noteq> []
      \<longrightarrow> Size w = length as \<and> (\<exists>k. Capacity w = 2 ^ k) \<and>
          Size w \<le> Capacity w \<and> Capacity w < 2 * Size w) \<and>
   (countdown pr = None \<and> length as \<le> 2 ^ 31 \<and> fits T (2 ^ 32)
      \<longrightarrow> (\<exists>w pr''. PushBack_all T Vector_default as pr = Returns (w, pr'') ()))"
proof -
  have a: "Capacity v' = (if Capacity v = 0 then 1 else 2 * Capacity v)"
    if "Size v = Capacity v" "Emplace T v (Size v) a pr = Returns (v', pr') r"
    using Emplace_size_capacity [OF that(2)] that(1) by auto
  have b: "Capacity v' = (if Capacity v = 0 then 1 else 2 * Capacity v)"
    if "Size v = Capacity v" "EmplaceBack T v a pr = Returns (v', pr') r"
  proof -
    from that(2) have "Emplace T v (Size v) a pr = Returns (v', pr') r"
      by (auto simp: EmplaceBack_def Size_def split: outcome.splits if_splits prod.splits)
    then show ?thesis using a that(1) by simp
  qed
  have c: "Capacity v' = (if Capacity v = 0 then 1 else 2 * Capacity v)"
    if "Size v = Capacity v" "PushBack T v a pr = Returns (v', pr') ()"
    using PushBack_size_capacity [OF that(2)] that(1) by auto
  have d: "Size w = length as \<and> (\<exists>k. Capacity w = 2 ^ k) \<and>
          Size w \<le> Capacity w \<and> Capacity w < 2 * Size w"
    if "PushBack_all T Vector_default as pr = Returns (w, pr'') ()" "as \<noteq> []"
  proof -
    have "Size (Vector_default :: 'a Vector) = 0 \<and> Capacity (Vector_default :: 'a Vector) = 0"
      by (simp add: Size_def Capacity_def Vector_default_def RawMemory_default_def)
    then have "Size w = Size (Vector_default :: 'a Vector) + length as \<and>
      ((Size w = 0 \<and> Capacity w = 0) \<or>
       (\<exists>k. Capacity w = 2 ^ k \<and> Size w \<le> Capacity w \<and> Capacity w < 2 * Size w))"
      by (intro PushBack_all_doubled [OF that(1)]) simp
    then show ?thesis using that(2) by (auto simp: Size_def Vector_default_def)
  qed
  have e: "\<exists>w pr''. PushBack_all T Vector_default as pr = Returns (w, pr'') ()"
    if "countdown pr = None" "length as \<le> 2 ^ 31" "fits T (2 ^ 32)"
  proof -
    have "VectorInv (Vector_default :: 'a Vector)"
      by (simp add: VectorInv_def Vector_default_def RawMemory_default_def)
    moreover have "m_size (Vector_default :: 'a Vector) + length as \<le> 2 ^ 31"
      using that(2) by (simp add: Vector_default_def)
    ultimately show ?thesis using that(1,3) by (rule PushBack_all_never)
  qed
  show ?thesis using a b c d e by blast
qed

lemma growth_below_int_max_example:
  "Size (vec [1::nat] 1) = Capacity (vec [1::nat] 1) \<and>
   Emplace nothrow_type (vec [1] 1) (Size (vec [1::nat] 1)) (CopyOf 2) never_fails
     = Returns (vec [1, 2] 2,
         \<lparr>countdown = None, trace = [CopyCtor 2, MoveCtor 1, Dtor 0]\<rparr>) 1 \<and>
   EmplaceBack nothrow_type (vec [1] 1) (CopyOf 2) never_fails
     = Returns (vec [1, 2] 2,
         \<lparr>countdown = None, trace = [CopyCtor 2, MoveCtor 1, Dtor 0]\<rparr>) 1 \<and>
   PushBack nothrow_type (vec [1] 1) (CopyOf 2) never_fails
     = Returns (vec [1, 2] 2,
         \<lparr>countdown = None, trace = [CopyCtor 2, MoveCtor 1, Dtor 0]\<rparr>) () \<and>
   Capacity (vec [1, 2::nat] 2) = 2 * Capacity (vec [1::nat] 1) \<and>
   PushBack_all nothrow_type Vector_default [CopyOf 1, CopyOf 2, MoveOf 3] never_fails
     = Returns (vec [1, 2, 3] 4,
         \<lparr>countdown = None,
          trace = [CopyCtor 1, CopyCtor 2, MoveCtor 1, Dtor 0,
                   MoveCtor 3, MoveCtor 1, MoveCtor 2, Dtor 0, Dtor 0]\<rparr>) () \<and>
   [CopyOf 1, CopyOf 2, MoveOf (3::nat)] \<noteq> [] \<and>
   countdown (never_fails :: nat probe) = None \<and>
   length [CopyOf 1, CopyOf 2, MoveOf (3::nat)] \<le> 2 ^ 31 \<and>
   Size (vec [1, 2, 3::nat] 4) = length [CopyOf 1, CopyOf 2, MoveOf (3::nat)] \<and>
   (\<exists>k. Capacity (vec [1, 2, 3::nat] 4) = 2 ^ k) \<and>
   Size (vec [1, 2, 3::nat] 4) \<le> Capacity (vec [1, 2, 3::nat] 4) \<and>
   Capacity (vec [1, 2, 3::nat] 4) < 2 * Size (vec [1, 2, 3::nat] 4)"
proof -
  let ?p1 = "\<lparr>countdown = None, trace = [CopyCtor 2, MoveCtor 1, Dtor (0::nat)]\<rparr>"
  let ?p2 = "\<lparr>countdown = None,
          trace = [CopyCtor 1, CopyCtor 2, MoveCtor 1, Dtor 0,
                   MoveCtor 3, MoveCtor 1, MoveCtor 2, Dtor 0, Dtor (0::nat)]\<rparr>"
  note defs = PushBack_def EmplaceBack_def Emplace_def Emplace_realloc_def Emplace_end_def
      to_int_def nothrow_type_def vec_def never_fails_def Vector_default_def RawMemory_default_def
      RawMemory_new_def Allocate_small CopyOrMoveElements_def may_throw_def no_throw_def
      move_construct_def RawMemory_Swap_def at_def Size_def Capacity_def
      uninitialized_copy_n_def uninitialized_move_n_def
      destroy_at_def with_buffer_def size_t_minus_def numeral_2_eq_2 numeral_3_eq_3
  have h0: "Size (vec [1::nat] 1) = Capacity (vec [1::nat] 1)"
    by (simp add: defs)
  have h1: "Emplace nothrow_type (vec [1] 1) (Size (vec [1::nat] 1)) (CopyOf 2) never_fails
              = Returns (vec [1, 2] 2, ?p1) 1"
    by (simp add: defs)
  have h2: "EmplaceBack nothrow_type (vec [1] 1) (CopyOf 2) never_fails
              = Returns (vec [1, 2] 2, ?p1) 1"
    by (simp add: defs)
  have h3: "PushBack nothrow_type (vec [1] 1) (CopyOf 2) never_fails
              = Returns (vec [1, 2] 2, ?p1) ()"
    by (simp add: defs)
  have h4: "PushBack_all nothrow_type Vector_default [CopyOf 1, CopyOf 2, MoveOf 3] never_fails
              = Returns (vec [1, 2, 3] 4, ?p2) ()"
    by (simp add: defs)
  have h5: "[CopyOf 1, CopyOf 2, MoveOf (3::nat)] \<noteq> []"
    by simp
  have h6: "countdown (never_fails :: nat probe) = None"
    "length [CopyOf 1, CopyOf 2, MoveOf (3::nat)] \<le> 2 ^ 31"
    by (simp_all add: never_fails_def)
  from growth_below_int_max [of "vec [1::nat] 1" nothrow_type "CopyOf 2" never_fails "vec [1, 2] 2" ?p1 1
      "[CopyOf 1, CopyOf 2, MoveOf 3]" "vec [1, 2, 3] 4" ?p2]
  have "Capacity (vec [1, 2::nat] 2)
          = (if Capacity (vec [1::nat] 1) = 0 then 1 else 2 * Capacity (vec [1::nat] 1)) \<and>
        Size (vec [1, 2, 3::nat] 4) = length [CopyOf 1, CopyOf 2, MoveOf (3::nat)] \<and>
        (\<exists>k. Capacity (vec [1, 2, 3::nat] 4) = 2 ^ k) \<and>
        Size (vec [1, 2, 3::nat] 4) \<le> Capacity (vec [1, 2, 3::nat] 4) \<and>
        Capacity (vec [1, 2, 3::nat] 4) < 2 * Size (vec [1, 2, 3::nat] 4)"
    using h0 h1 h2 h3 h4 h5 by blast
  moreover have "Capacity (vec [1::nat] 1) \<noteq> 0"
    by (simp add: Capacity_def vec_def)
  ultimately show ?thesis using h0 h1 h2 h3 h4 h5 h6 by simp
qed

subsection \<open>Reserve and Resize while the storage asked for fits\<close>

text \<open>
  On a vector that satisfies the state invariant, \<^verbatim>\<open>Reserve(n)\<close> with \<open>n\<close> at most the
  capacity returns with the vector and the probe unchanged. With \<open>n\<close> above the capacity
  and \<open>n\<close> objects fitting a block, whenever it returns the capacity is exactly \<open>n\<close>, the
  size and every element are as before and the invariant holds; and it does return when
  no element operation throws. \<^verbatim>\<open>Reserve(10)\<close> on an empty vector of capacity below 10,
  such as a default-constructed one, gives capacity 10 and size 0 with the probe
  unchanged: no element is constructed.
\<close>

lemma Reserve_frame:
  assumes "VectorInv v"
  shows "(n \<le> Capacity v \<longrightarrow> Reserve T v n pr = Returns (v, pr) ()) \<and>
         (Capacity v < n \<and> fits T n \<longrightarrow>
            (\<forall>v' pr'. Reserve T v n pr = Returns (v', pr') () \<longrightarrow>
               Capacity v' = n \<and> Size v' = Size v \<and> elements v' = elements v \<and>
               (\<forall>i<Size v. at v' i = at v i) \<and> VectorInv v') \<and>
            (countdown pr = None \<longrightarrow> (\<exists>v' pr'. Reserve T v n pr = Returns (v', pr') ()))) \<and>
         (Size v = 0 \<and> Capacity v < 10 \<and> fits T 10 \<longrightarrow>
            Reserve T v 10 pr = Returns (vec [] 10, pr) ()) \<and>
         (fits T 10 \<longrightarrow> Reserve T Vector_default 10 pr = Returns (vec [] 10, pr) ()) \<and>
         Capacity (vec [] 10 :: 'a Vector) = 10 \<and> Size (vec [] 10 :: 'a Vector) = 0"
proof -
  have a: "Reserve T v n pr = Returns (v, pr) ()" if "n \<le> Capacity v"
    using that by (simp add: Reserve_def Capacity_def)
  have b: "Capacity v' = n \<and> Size v' = Size v \<and> elements v' = elements v \<and>
           (\<forall>i<Size v. at v' i = at v i) \<and> VectorInv v'"
    if "Capacity v < n" "fits T n" "Reserve T v n pr = Returns (v', pr') ()" for v' pr'
    using Reserve_grows [OF assms _ that(3,2)] that(1) by (simp add: Capacity_def Size_def)
  have c: "\<exists>v' pr'. Reserve T v n pr = Returns (v', pr') ()"
    if "countdown pr = None" "fits T n"
    using Reserve_never [OF assms that] by blast
  have d: "Reserve T v 10 pr = Returns (vec [] 10, pr) ()"
    if "Size v = 0" "Capacity v < 10" "fits T 10"
    using that by (intro Reserve_empty) (simp_all add: Size_def Capacity_def)
  have e: "Reserve T Vector_default 10 pr = Returns (vec [] 10, pr) ()" if "fits T 10"
    using that by (intro Reserve_empty) (simp_all add: Vector_default_def RawMemory_default_def)
  have f: "Capacity (vec [] 10 :: 'a Vector) = 10 \<and> Size (vec [] 10 :: 'a Vector) = 0"
    by (simp add: Capacity_def Size_def vec_def)
  show ?thesis using a b c d e f by blast
qed

lemma Reserve_frame_example:
  "VectorInv (vec [1, 2::nat] 2) \<and>
   1 \<le> Capacity (vec [1, 2::nat] 2) \<and>
   Reserve throwing_type (vec [1, 2] 2) 1 never_fails = Returns (vec [1, 2] 2, never_fails) () \<and>
   Capacity (vec [1, 2::nat] 2) < 5 \<and>
   Reserve throwing_type (vec [1, 2] 2) 5 never_fails
     = Returns (vec [1, 2] 5,
         \<lparr>countdown = None, trace = [CopyCtor 1, CopyCtor 2, Dtor 1, Dtor 2]\<rparr>) () \<and>
   Capacity (vec [1, 2::nat] 5) = 5 \<and>
   Size (vec [1, 2::nat] 5) = Size (vec [1, 2::nat] 2) \<and>
   elements (vec [1, 2::nat] 5) = elements (vec [1, 2::nat] 2) \<and>
   at (vec [1, 2::nat] 5) 1 = at (vec [1, 2::nat] 2) 1 \<and>
   VectorInv (vec [1, 2::nat] 5) \<and>
   VectorInv (vec ([]::nat list) 3) \<and>
   Size (vec ([]::nat list) 3) = 0 \<and> Capacity (vec ([]::nat list) 3) < 10 \<and>
   Reserve throwing_type (vec [] 3) 10 never_fails = Returns (vec [] 10, never_fails) () \<and>
   Reserve throwing_type Vector_default 10 never_fails = Returns (vec [] 10, never_fails) ()"
proof -
  let ?p = "\<lparr>countdown = None, trace = [CopyCtor 1, CopyCtor 2, Dtor 1, Dtor (2::nat)]\<rparr>"
  have inv: "VectorInv (vec [1, 2::nat] 2)" and inv0: "VectorInv (vec ([]::nat list) 3)"
    by (simp_all add: run_defs)
  have le: "1 \<le> Capacity (vec [1, 2::nat] 2)" and lt: "Capacity (vec [1, 2::nat] 2) < 5"
    and sz: "1 < Size (vec [1, 2::nat] 2)"
    and e: "Size (vec ([]::nat list) 3) = 0" "Capacity (vec ([]::nat list) 3) < 10"
    by (simp_all add: run_defs)
  have f: "fits throwing_type 5" "fits throwing_type 10"
    by (simp_all add: fits_def throwing_type_def)
  have r5: "Reserve throwing_type (vec [1, 2] 2) 5 never_fails = Returns (vec [1, 2] 5, ?p) ()"
    by (simp add: run_defs)
  from Reserve_frame [OF inv, of 1 throwing_type never_fails] le
  have r1: "Reserve throwing_type (vec [1, 2] 2) 1 never_fails = Returns (vec [1, 2] 2, never_fails) ()"
    by blast
  from Reserve_frame [OF inv, of 5 throwing_type never_fails] lt r5 sz f
  have a: "Capacity (vec [1, 2::nat] 5) = 5 \<and>
        Size (vec [1, 2::nat] 5) = Size (vec [1, 2::nat] 2) \<and>
        elements (vec [1, 2::nat] 5) = elements (vec [1, 2::nat] 2) \<and>
        at (vec [1, 2::nat] 5) 1 = at (vec [1, 2::nat] 2) 1 \<and>
        VectorInv (vec [1, 2::nat] 5) \<and>
        Reserve throwing_type Vector_default 10 never_fails = Returns (vec [] 10, never_fails) ()"
    by blast
  from Reserve_frame [OF inv0, of 10 throwing_type never_fails] e f
  have b: "Reserve throwing_type (vec [] 3) 10 never_fails = Returns (vec [] 10, never_fails) ()"
    by blast
  show ?thesis using inv inv0 le lt e r5 r1 a b by simp
qed

text \<open>
  On a vector that satisfies the state invariant, and for an \<open>n\<close> such that \<open>n\<close> objects
  fit a block, whenever \<^verbatim>\<open>Resize(n)\<close> returns the size is \<open>n\<close> and the invariant holds. For
  \<open>n\<close> below the size the elements are the first \<open>n\<close> of the old ones and the trace grows
  by exactly the destructor calls of the old elements from index \<open>n\<close> on. For \<open>n\<close> above
  the size the elements are the old ones followed by \<open>n - Size()\<close> value-initialised
  ones. For \<open>n\<close> equal to the size the vector and the probe are unchanged. \<^verbatim>\<open>Resize\<close>
  returns when no element operation throws.
\<close>

lemma Resize_contents:
  assumes "VectorInv v" "fits T n"
  shows "(\<forall>v' pr'. Resize T v n pr = Returns (v', pr') () \<longrightarrow>
            Size v' = n \<and> VectorInv v' \<and>
            (n < Size v \<longrightarrow>
               elements v' = take n (elements v) \<and>
               trace pr' = trace pr @ map Dtor (drop n (elements v))) \<and>
            (Size v < n \<longrightarrow>
               elements v' = elements v @ replicate (n - Size v) (value_initialized T)) \<and>
            (n = Size v \<longrightarrow> v' = v \<and> pr' = pr)) \<and>
         (countdown pr = None \<longrightarrow> (\<exists>v' pr'. Resize T v n pr = Returns (v', pr') ()))"
proof -
  have a: "Size v' = n \<and> VectorInv v' \<and>
            (n < Size v \<longrightarrow>
               elements v' = take n (elements v) \<and>
               trace pr' = trace pr @ map Dtor (drop n (elements v))) \<and>
            (Size v < n \<longrightarrow>
               elements v' = elements v @ replicate (n - Size v) (value_initialized T)) \<and>
            (n = Size v \<longrightarrow> v' = v \<and> pr' = pr)"
    if r: "Resize T v n pr = Returns (v', pr') ()" for v' pr'
  proof (cases "n < m_size v")
    case True
    then show ?thesis using Resize_shrink [OF assms(1) True r] by (simp add: Size_def)
  next
    case False
    then have le: "m_size v \<le> n" by simp
    have "m_size v \<le> m_capacity (m_data v)" using assms(1) by (simp add: VectorInv_iff)
    then have "v' = v \<and> pr' = pr" if "n = m_size v"
      using Resize_same [of v n T pr] r that by simp
    then show ?thesis using Resize_grow [OF assms(1) le r assms(2)] False by (auto simp: Size_def)
  qed
  have b: "\<exists>v' pr'. Resize T v n pr = Returns (v', pr') ()" if "countdown pr = None"
    using Resize_never [OF assms(1) that assms(2)] .
  show ?thesis using a b by blast
qed

lemma Resize_contents_example:
  "VectorInv (vec [1, 2, 3::nat] 5) \<and>
   Resize nothrow_type (vec [1, 2, 3] 5) 1 never_fails
     = Returns (vec [1] 5, \<lparr>countdown = None, trace = [Dtor 2, Dtor 3]\<rparr>) () \<and>
   1 < Size (vec [1, 2, 3::nat] 5) \<and>
   Size (vec [1::nat] 5) = 1 \<and>
   elements (vec [1::nat] 5) = take 1 (elements (vec [1, 2, 3::nat] 5)) \<and>
   [Dtor 2, Dtor 3] = [] @ map Dtor (drop 1 (elements (vec [1, 2, 3::nat] 5))) \<and>
   Resize nothrow_type (vec [1, 2, 3] 5) 7 never_fails
     = Returns (vec [1, 2, 3, 0, 0, 0, 0] 7,
         \<lparr>countdown = None,
          trace = [MoveCtor 1, MoveCtor 2, MoveCtor 3, Dtor 0, Dtor 0, Dtor 0,
                   ValueCtor 0, ValueCtor 0, ValueCtor 0, ValueCtor 0]\<rparr>) () \<and>
   Size (vec [1, 2, 3::nat] 5) < 7 \<and>
   Size (vec [1, 2, 3, 0, 0, 0, 0::nat] 7) = 7 \<and>
   elements (vec [1, 2, 3, 0, 0, 0, 0::nat] 7)
     = elements (vec [1, 2, 3::nat] 5)
       @ replicate (7 - Size (vec [1, 2, 3::nat] 5)) (value_initialized nothrow_type) \<and>
   VectorInv (vec [1, 2, 3, 0, 0, 0, 0::nat] 7) \<and>
   3 = Size (vec [1, 2, 3::nat] 5) \<and>
   Resize nothrow_type (vec [1, 2, 3] 5) 3 never_fails = Returns (vec [1, 2, 3] 5, never_fails) ()"
proof -
  let ?v = "vec [1, 2, 3::nat] 5"
  let ?p1 = "\<lparr>countdown = None, trace = [Dtor 2, Dtor (3::nat)]\<rparr>"
  let ?p7 = "\<lparr>countdown = None,
          trace = [MoveCtor 1, MoveCtor 2, MoveCtor 3, Dtor 0, Dtor 0, Dtor 0,
                   ValueCtor 0, ValueCtor 0, ValueCtor 0, ValueCtor (0::nat)]\<rparr>"
  have inv: "VectorInv ?v"
    by (simp add: run_defs)
  have c1: "1 < Size ?v" and c7: "Size ?v < 7" and c3: "3 = Size ?v"
    by (simp_all add: run_defs)
  have f: "fits nothrow_type 1" "fits nothrow_type 7"
    by (simp_all add: fits_def nothrow_type_def)
  have r1: "Resize nothrow_type ?v 1 never_fails = Returns (vec [1] 5, ?p1) ()"
    by (simp add: run_defs)
  have r7: "Resize nothrow_type ?v 7 never_fails = Returns (vec [1, 2, 3, 0, 0, 0, 0] 7, ?p7) ()"
    by (simp add: run_defs)
  have r3: "Resize nothrow_type ?v 3 never_fails = Returns (vec [1, 2, 3] 5, never_fails) ()"
    by (simp add: run_defs)
  from Resize_contents [OF inv f(1), of never_fails] r1 c1
  have a: "Size (vec [1::nat] 5) = 1 \<and>
           elements (vec [1::nat] 5) = take 1 (elements ?v) \<and>
           trace ?p1 = trace (never_fails :: nat probe) @ map Dtor (drop 1 (elements ?v))"
    by blast
  from Resize_contents [OF inv f(2), of never_fails] r7 c7
  have b: "Size (vec [1, 2, 3, 0, 0, 0, 0::nat] 7) = 7 \<and>
           VectorInv (vec [1, 2, 3, 0, 0, 0, 0::nat] 7) \<and>
           elements (vec [1, 2, 3, 0, 0, 0, 0::nat] 7)
             = elements ?v @ replicate (7 - Size ?v) (value_initialized nothrow_type)"
    by blast
  show ?thesis using inv c1 c7 c3 r1 r7 r3 a b by (simp add: never_fails_def)
qed

section \<open>The claims\<close>

subsection \<open>Self-assignment\<close>

text \<open>
  C10. Copy assignment and move assignment of a vector to itself return without changing
  anything: the store, and with it the size, the capacity and the elements of the vector,
  and the probe are as before.
\<close>

theorem self_assignment_noop:
  "copy_assign T this this s pr = Returns (s, pr) () \<and>
   move_assign this this s pr = Returns (s, pr) ()"
  by (simp add: copy_assign_def move_assign_def)

subsection \<open>Moving a vector\<close>

text \<open>
  C2, as the claim states it, fails for move assignment: the assignment swaps, so the
  source is left with the former contents of the destination. Moving the vector
  \<open>[1, 2]\<close> into the vector \<open>[7]\<close> leaves the source with size 1.
\<close>

theorem move_assign_source_not_empty:
  "move_assign 0 1 (store_of [vec [7::nat] 1, vec [1, 2] 2]) never_fails
     = Returns (Swap_at 0 1 (store_of [vec [7] 1, vec [1, 2] 2]), never_fails) () \<and>
   Size (Swap_at 0 1 (store_of [vec [7::nat] 1, vec [1, 2] 2]) 1) = 1"
  by (simp add: move_assign_def Swap_at_def RawMemory_Swap_def store_of_def vec_def Size_def)

text \<open>
  C2, amended. For a source \<open>x\<close> other than the destination: after move construction the
  destination is what \<open>x\<close> was and \<open>x\<close> is an empty, default vector of size 0; after move
  assignment the destination is what \<open>x\<close> was and \<open>x\<close> is what the destination was, so
  its size is the former size of the destination. Both return with the probe unchanged:
  no element is copied, moved, constructed or destroyed.
\<close>

theorem move_exchanges:
  assumes "this \<noteq> x"
  shows "(\<exists>s'. Vector_move this x s pr = Returns (s', pr) () \<and>
               s' this = s x \<and> s' x = Vector_default \<and> Size (s' x) = 0) \<and>
         (\<exists>s'. move_assign this x s pr = Returns (s', pr) () \<and>
               s' this = s x \<and> s' x = s this \<and> Size (s' x) = Size (s this))"
  using assms
  by (auto simp: Vector_move_def move_assign_def Swap_at_distinct Size_def Vector_default_def)

theorem move_exchanges_witness:
  "(0::nat) \<noteq> 1 \<and>
   (\<exists>s'. Vector_move 0 1 (store_of [vec [7::nat] 1, vec [1, 2] 2]) never_fails
            = Returns (s', never_fails) () \<and>
         s' 0 = vec [1, 2] 2 \<and> s' 1 = Vector_default \<and> Size (s' 1) = 0) \<and>
   (\<exists>s'. move_assign 0 1 (store_of [vec [7::nat] 1, vec [1, 2] 2]) never_fails
            = Returns (s', never_fails) () \<and>
         s' 0 = vec [1, 2] 2 \<and> s' 1 = vec [7] 1 \<and> Size (s' 1) = 1)"
  using move_exchanges [of 0 1 "store_of [vec [7::nat] 1, vec [1, 2] 2]" never_fails]
  by (simp add: store_of_def Size_def vec_def)

subsection \<open>A reallocating Emplace that fails while relocating\<close>

text \<open>
  C1 asks that a reallocating \<^verbatim>\<open>Emplace\<close> that fails during relocation leaves the
  vector as it was. \<^verbatim>\<open>Emplace\<close> relocates in two calls of \<^verbatim>\<open>CopyOrMoveElements\<close>, and
  the first call has destroyed the objects before the position when the second one
  throws. On the vector \<open>[1, 2]\<close> of capacity 2, with an element type that relocates by
  copy and whose third operation throws, \<^verbatim>\<open>Emplace\<close> at position 1 builds the new object,
  copies and destroys the object at index 0, fails to copy the object at index 1,
  destroys the new object and rethrows: the vector still has size 2, and its slot 0 no
  longer holds an object.
\<close>

theorem emplace_realloc_failure_destroys_prefix:
  "Emplace throwing_type (vec [1, 2] 2) 1 (Args 5) (fails_after 2)
     = Throws (\<lparr>m_data = \<lparr>m_buffer = [None, Some 2], m_capacity = 2\<rparr>, m_size = 2\<rparr>,
               \<lparr>countdown = None, trace = [ArgsCtor 5, CopyCtor 1, Dtor 1, Dtor 5]\<rparr>)"
  by (simp add: Emplace_def Emplace_realloc_def to_int_def throwing_type_def vec_def fails_after_def
      RawMemory_new_def Allocate_small CopyOrMoveElements_def may_throw_def no_throw_def
      uninitialized_copy_n_def destroy_at_def with_buffer_def size_t_minus_def numeral_2_eq_2)

subsection \<open>The growth policy\<close>

text \<open>
  C5 asks that every append on a vector whose size equals its capacity doubles the
  capacity, and that any sequence of \<^verbatim>\<open>PushBack\<close> calls from a default-constructed vector
  runs through the capacities 1, 2, 4, 8, \<dots> \<^verbatim>\<open>Emplace\<close> keeps the position in an \<^verbatim>\<open>int\<close>.
  The first \<open>2 ^ 31\<close> calls of \<^verbatim>\<open>PushBack\<close> on a default-constructed vector of bytes return
  and leave a vector of size and capacity \<open>2 ^ 31\<close>. In the next append \<^verbatim>\<open>new_pos\<close> is
  \<open>- 2 ^ 31\<close>, and the new object is built at \<^verbatim>\<open>new_data.GetAddress() + new_pos\<close>, in front of
  the new storage: the append by \<^verbatim>\<open>Emplace\<close> at \<^verbatim>\<open>end()\<close>, by \<^verbatim>\<open>EmplaceBack\<close> and by
  \<^verbatim>\<open>PushBack\<close> has undefined behaviour, and no capacity of \<open>2 ^ 32\<close> is reached.
\<close>

theorem append_at_size_2_31_undefined:
  "\<exists>w pr'. PushBack_all nothrow_type Vector_default (replicate (2 ^ 31) (CopyOf 0)) never_fails
              = Returns (w, pr') () \<and>
            Size w = 2 ^ 31 \<and> Capacity w = 2 ^ 31 \<and>
            Emplace nothrow_type w (Size w) (CopyOf 0) pr' = Undefined \<and>
            EmplaceBack nothrow_type w (CopyOf 0) pr' = Undefined \<and>
            PushBack nothrow_type w (CopyOf 0) pr' = Undefined"
proof -
  let ?as = "replicate (2 ^ 31) (CopyOf (0::nat))"
  have inv: "VectorInv (Vector_default :: nat Vector)"
    by (simp add: VectorInv_def Vector_default_def RawMemory_default_def)
  have len: "m_size (Vector_default :: nat Vector) + length ?as \<le> 2 ^ 31"
    by (simp add: Vector_default_def)
  have cd: "countdown (never_fails :: nat probe) = None"
    by (simp add: never_fails_def)
  have f: "fits nothrow_type (2 ^ 32)"
    by (simp add: fits_def nothrow_type_def)
  from PushBack_all_never [OF inv len cd f] obtain w pr' where
    r: "PushBack_all nothrow_type Vector_default ?as never_fails = Returns (w, pr') ()"
    by blast
  have z: "(Size (Vector_default :: nat Vector) = 0 \<and> Capacity (Vector_default :: nat Vector) = 0) \<or>
      (\<exists>k. Capacity (Vector_default :: nat Vector) = 2 ^ k \<and>
           Size (Vector_default :: nat Vector) \<le> Capacity (Vector_default :: nat Vector) \<and>
           Capacity (Vector_default :: nat Vector) < 2 * Size (Vector_default :: nat Vector))"
    by (simp add: Size_def Capacity_def Vector_default_def RawMemory_default_def)
  note D = PushBack_all_doubled [OF r z]
  have sz: "Size w = 2 ^ 31"
    using D by (simp add: Size_def Vector_default_def)
  then obtain k where k: "Capacity w = 2 ^ k" "Size w \<le> Capacity w" "Capacity w < 2 * Size w"
    using D by auto
  have "(2::nat) ^ 31 \<le> 2 ^ k" using k(1,2) sz by simp
  then have k1: "31 \<le> k" by (subst (asm) power_increasing_iff) simp_all
  have "(2::nat) ^ k < 2 ^ Suc 31" using k(1,3) sz by simp
  then have k2: "k < Suc 31" by (subst (asm) power_strict_increasing_iff) simp_all
  have "k = 31" using k1 k2 by simp
  then have cap: "Capacity w = 2 ^ 31" using k(1) by simp
  have ms: "m_size w = 2147483648" "m_capacity (m_data w) = 2147483648"
    using sz cap by (simp_all add: Size_def Capacity_def)
  have e: "Emplace nothrow_type w (m_size w) (CopyOf 0) pr' = Undefined"
    by (simp add: Emplace_def Emplace_realloc_def Let_def ms to_int_2_31)
  then have "EmplaceBack nothrow_type w (CopyOf 0) pr' = Undefined"
    by (simp add: EmplaceBack_def)
  moreover from this have "PushBack nothrow_type w (CopyOf 0) pr' = Undefined"
    by (simp add: PushBack_def)
  moreover have "Emplace nothrow_type w (Size w) (CopyOf 0) pr' = Undefined"
    using e by (simp add: Size_def)
  ultimately show ?thesis using r sz cap by blast
qed

subsection \<open>Reserve\<close>

text \<open>
  C8 asks that \<^verbatim>\<open>Reserve(n)\<close> with \<open>n\<close> above the capacity sets the capacity to \<open>n\<close> and
  leaves the size and the elements as they were, for every vector and every \<open>n\<close>.
  \<^verbatim>\<open>Allocate\<close> asks \<^verbatim>\<open>operator new\<close> for \<^verbatim>\<open>n * sizeof(T)\<close> bytes, a product that wraps. For
  an element type of four bytes and \<open>n = 2 ^ 62\<close> the product is 0: the block has no room
  for an object, and \<^verbatim>\<open>Reserve\<close> relocates the elements of the vector \<open>[1, 2]\<close>, or those
  of a vector of \<open>2 ^ 20\<close> zeros, behind its end, which is undefined behaviour. On a
  default-constructed vector the call returns, with a capacity of \<open>2 ^ 62\<close> over storage
  of no slot.
\<close>

theorem reserve_allocation_wraps:
  "Reserve four_byte_type (vec [1, 2] 2) (2 ^ 62) never_fails = Undefined \<and>
   Reserve four_byte_type (vec (replicate (2 ^ 20) 0) (2 ^ 20)) (2 ^ 62) never_fails = Undefined \<and>
   Reserve four_byte_type Vector_default (2 ^ 62) never_fails
     = Returns (\<lparr>m_data = \<lparr>m_buffer = [], m_capacity = 2 ^ 62\<rparr>, m_size = 0\<rparr>, never_fails) ()"
proof -
  have a: "Reserve four_byte_type (vec [1, 2] 2) (2 ^ 62) never_fails = Undefined"
    by (rule Reserve_behind_block) (simp_all add: size_vec RawMemory_new_wraps)
  have a': "Reserve four_byte_type (vec (replicate (2 ^ 20) 0) (2 ^ 20)) (2 ^ 62) never_fails
              = Undefined"
    by (rule Reserve_behind_block) (simp_all add: size_vec RawMemory_new_wraps)
  have b: "Reserve four_byte_type Vector_default (2 ^ 62) never_fails
     = Returns (\<lparr>m_data = \<lparr>m_buffer = [], m_capacity = 2 ^ 62\<rparr>, m_size = 0\<rparr>, never_fails) ()"
    by (simp add: Reserve_def Let_def RawMemory_new_wraps CopyOrMoveElements_zero
        RawMemory_Swap_def Vector_default_def RawMemory_default_def)
  show ?thesis using a a' b by (intro conjI)
qed

subsection \<open>Resize\<close>

text \<open>
  C7 asks that after \<^verbatim>\<open>Resize(n)\<close> the size is \<open>n\<close>, for every vector and every \<open>n\<close>.
  \<^verbatim>\<open>Resize\<close> obtains its storage from \<^verbatim>\<open>Reserve\<close>, and so from a product
  \<^verbatim>\<open>n * sizeof(T)\<close> that wraps. For an element type of four bytes, \<^verbatim>\<open>Resize(2 ^ 62)\<close> on a
  default-constructed vector gets a block without room for an object and
  value-initialises objects behind its end; on the vector \<open>[1, 2]\<close> the relocation in
  \<^verbatim>\<open>Reserve\<close> already leaves the block. Both calls have undefined behaviour.
\<close>

theorem resize_allocation_wraps:
  "Resize four_byte_type Vector_default (2 ^ 62) never_fails = Undefined \<and>
   Resize four_byte_type (vec [1, 2] 2) (2 ^ 62) never_fails = Undefined"
proof -
  have r: "Reserve four_byte_type Vector_default (2 ^ 62) never_fails
     = Returns (\<lparr>m_data = \<lparr>m_buffer = [], m_capacity = 2 ^ 62\<rparr>, m_size = 0\<rparr>,
                never_fails :: nat probe) ()"
    by (simp add: Reserve_def Let_def RawMemory_new_wraps CopyOrMoveElements_zero
        RawMemory_Swap_def Vector_default_def RawMemory_default_def)
  have "uninitialized_value_construct_n four_byte_type [] 0 (2 ^ 62) (never_fails :: nat probe)
          = Undefined"
    by (rule uninitialized_value_construct_n_behind) simp_all
  then have a: "Resize four_byte_type Vector_default (2 ^ 62) never_fails = Undefined"
    using r by (simp add: Resize_def Vector_default_def)
  have "Reserve four_byte_type (vec [1, 2] 2) (2 ^ 62) never_fails = Undefined"
    by (rule Reserve_behind_block) (simp_all add: size_vec RawMemory_new_wraps)
  then have b: "Resize four_byte_type (vec [1, 2] 2) (2 ^ 62) never_fails = Undefined"
    by (simp add: Resize_def size_vec)
  show ?thesis using a b by (rule conjI)
qed

subsection \<open>Copy assignment\<close>



subsection \<open>Emplace and Insert\<close>

text \<open>
  C3 asks that an \<^verbatim>\<open>Emplace\<close> at any position \<open>p\<close> of the range places the value at index
  \<open>p\<close> and returns a pointer to it. \<^verbatim>\<open>Emplace\<close> keeps the position in an \<^verbatim>\<open>int\<close>, so at
  a position of \<open>2 ^ 32\<close> its \<^verbatim>\<open>new_pos\<close> is 0. On a vector of \<open>2 ^ 32\<close> zeros whose size
  equals its capacity, \<^verbatim>\<open>Emplace\<close> of the value 1 at \<^verbatim>\<open>end()\<close> returns normally with the
  offset 0, and the elements are then 1 followed by the \<open>2 ^ 32\<close> zeros: the value is
  at index 0, not at index \<open>2 ^ 32\<close>, and every old element has moved one slot.
\<close>

theorem emplace_at_end_of_large_vector:
  "\<exists>v' pr'. Emplace nothrow_type (vec (replicate (2 ^ 32) 0) (2 ^ 32)) (2 ^ 32) (Args 1) never_fails
               = Returns (v', pr') 0 \<and>
            elements v' = 1 # replicate (2 ^ 32) 0"
proof -
  let ?v = "vec (replicate (2 ^ 32) (0::nat)) (2 ^ 32)"
  have inv: "VectorInv ?v" by (rule VectorInv_vec) simp
  have pos: "2 ^ 32 \<le> m_size ?v" by (simp add: size_vec)
  have nn: "0 \<le> to_int (2 ^ 32)" by (simp add: to_int_2_32)
  have cd: "countdown (never_fails :: nat probe) = None" by (simp add: never_fails_def)
  have f: "fits nothrow_type (if m_size ?v = 0 then 1 else m_size ?v * 2)"
    by (simp add: size_vec fits_def nothrow_type_def)
  from Emplace_never [OF inv pos nn cd f, where a = "Args 1"] obtain v' pr' where
    r: "Emplace nothrow_type ?v (2 ^ 32) (Args 1) never_fails = Returns (v', pr') 0"
    by (auto simp: to_int_2_32)
  have "elements v' = 1 # replicate (2 ^ 32) 0"
    using Emplace_Returns [OF inv pos r f] by (simp add: size_vec elements_vec to_int_2_32)
  then show ?thesis using r by blast
qed

subsection \<open>Erase\<close>

text \<open>
  C4 asks that \<^verbatim>\<open>Erase\<close> at any position \<open>p\<close> below the size removes the element at index
  \<open>p\<close>. \<^verbatim>\<open>Erase\<close> keeps the position in an \<^verbatim>\<open>int\<close> as well. On the vector that holds 1
  followed by \<open>2 ^ 32\<close> zeros, \<^verbatim>\<open>Erase\<close> at position \<open>2 ^ 32\<close>, the last element, returns
  normally with the offset 0 and leaves \<open>2 ^ 32\<close> zeros: the element removed is the 1
  at index 0.
\<close>

theorem erase_in_large_vector:
  "\<exists>v' pr'. Erase nothrow_type (vec (1 # replicate (2 ^ 32) 0) (2 ^ 32 + 1)) (2 ^ 32) never_fails
               = Returns (v', pr') 0 \<and>
            elements v' = replicate (2 ^ 32) 0"
proof -
  let ?v = "vec (1 # replicate (2 ^ 32) (0::nat)) (2 ^ 32 + 1)"
  have inv: "VectorInv ?v" by (rule VectorInv_vec) simp
  have nn: "0 \<le> to_int (2 ^ 32)" by (simp add: to_int_2_32)
  have lt: "nat (to_int (2 ^ 32)) < m_size ?v" by (simp add: size_vec to_int_2_32)
  have cd: "countdown (never_fails :: nat probe) = None" by (simp add: never_fails_def)
  from Erase_never [OF inv cd nn lt, of nothrow_type] obtain v' pr' where
    r: "Erase nothrow_type ?v (2 ^ 32) never_fails = Returns (v', pr') 0"
    by (auto simp: to_int_2_32)
  have "elements v' = replicate (2 ^ 32) 0"
    using Erase_Returns [OF inv r] by (simp add: elements_vec to_int_2_32)
  then show ?thesis using r by blast
qed

subsection \<open>The state invariant\<close>

text \<open>
  C9 asks that every public operation preserves the state invariant. The vector
  \<open>[1, 2, 3]\<close> of capacity 3 satisfies it. \<^verbatim>\<open>Insert\<close> of 9 at position 1, with an element
  type that relocates by copy and whose fourth operation (the copy of the element at
  index 2) throws, leaves by the exception with size 3 and a raw slot at index 0: the
  vector that the operation leaves behind does not satisfy the invariant.
\<close>

theorem failed_emplace_breaks_invariant:
  "VectorInv (vec [1, 2, 3::nat] 3) \<and>
   Insert throwing_type (vec [1, 2, 3] 3) 1 9 (fails_after 3)
     = Throws (\<lparr>m_data = \<lparr>m_buffer = [None, Some 2, Some 3], m_capacity = 3\<rparr>, m_size = 3\<rparr>,
               \<lparr>countdown = None,
                trace = [CopyCtor 9, CopyCtor 1, Dtor 1, CopyCtor 2, Dtor 2, Dtor 9]\<rparr>) \<and>
   \<not> VectorInv \<lparr>m_data = \<lparr>m_buffer = [None, Some 2, Some (3::nat)], m_capacity = 3\<rparr>, m_size = 3\<rparr>"
  by (simp add: run_defs)

end
